theory Spec2Isabelle
  imports Complex_Main
begin

section \<open>Disk scheduling (DiskScheduling.js)\<close>

text \<open>
  Cylinders, head positions and seek distances are JavaScript numbers that the form only
  ever fills with integers; they are modelled as \<open>int\<close>.
\<close>

definition maxCyl :: int where
  "maxCyl = 199"

datatype disk_algorithm = Fcfs | Sstf | Scan | Cscan | Look | Clook

datatype direction = DirRight | DirLeft

text \<open>
  One round of the inner \<open>for\<close> loop of \<open>sstf\<close>: the scan over \<open>pending[i..]\<close> keeps the
  first index whose distance to \<open>current\<close> is strictly smaller than the best so far.
\<close>

fun sstf_scan :: "int \<Rightarrow> int list \<Rightarrow> nat \<Rightarrow> nat \<Rightarrow> int \<Rightarrow> nat" where
  "sstf_scan current [] i bestIdx bestDist = bestIdx"
| "sstf_scan current (r # rs) i bestIdx bestDist =
     (let dist = \<bar>r - current\<bar>
      in if dist < bestDist then sstf_scan current rs (Suc i) i dist
         else sstf_scan current rs (Suc i) bestIdx bestDist)"

definition sstf_best :: "int \<Rightarrow> int list \<Rightarrow> nat" where
  "sstf_best current pending =
     (case pending of
        [] \<Rightarrow> 0
      | r # rs \<Rightarrow> sstf_scan current rs 1 0 \<bar>r - current\<bar>)"

text \<open>\<open>pending.splice(bestIdx, 1)\<close>: the element at \<open>bestIdx\<close> leaves the list.\<close>

definition splice1 :: "nat \<Rightarrow> 'a list \<Rightarrow> 'a list" where
  "splice1 i xs = take i xs @ drop (Suc i) xs"

lemma sstf_scan_bound:
  "bestIdx < i \<Longrightarrow> sstf_scan current rs i bestIdx bestDist < i + length rs"
proof (induction rs arbitrary: i bestIdx bestDist)
  case Nil
  then show ?case by simp
next
  case (Cons r rs)
  have a: "sstf_scan current rs (Suc i) i \<bar>r - current\<bar> < Suc i + length rs"
    by (rule Cons.IH) simp
  have b: "sstf_scan current rs (Suc i) bestIdx bestDist < Suc i + length rs"
    by (rule Cons.IH) (use Cons.prems in simp)
  from a b show ?case by (simp add: Let_def)
qed

lemma sstf_best_bound: "pending \<noteq> [] \<Longrightarrow> sstf_best current pending < length pending"
proof (cases pending)
  case Nil
  assume "pending \<noteq> []"
  with Nil show ?thesis by simp
next
  case (Cons r rs)
  have "sstf_scan current rs 1 0 \<bar>r - current\<bar> < 1 + length rs"
    by (rule sstf_scan_bound) simp
  with Cons show ?thesis by (simp add: sstf_best_def)
qed

lemma length_splice1: "i < length xs \<Longrightarrow> length (splice1 i xs) < length xs"
  by (simp add: splice1_def)

text \<open>The \<open>while (pending.length)\<close> loop of \<open>sstf\<close>, with its three variables.\<close>

function sstf_loop :: "int \<Rightarrow> int list \<Rightarrow> int list \<Rightarrow> int list" where
  "sstf_loop current pending order =
     (if pending = [] then order
      else let bestIdx = sstf_best current pending;
               next = pending ! bestIdx
           in sstf_loop next (splice1 bestIdx pending) (order @ [next]))"
  by pat_completeness auto
termination
  by (relation "measure (\<lambda>(current, pending, order). length pending)")
     (auto intro!: length_splice1 sstf_best_bound)

declare sstf_loop.simps [simp del]

definition sstf :: "int \<Rightarrow> int list \<Rightarrow> int list" where
  "sstf head reqs = sstf_loop head reqs []"

text \<open>
  \<open>orderRequests\<close>. \<open>left\<close> and \<open>right\<close> are sorted ascending; \<open>left.reverse()\<close> and
  \<open>right.reverse()\<close> are each evaluated once in the branch that uses them.
\<close>

definition orderRequests :: "disk_algorithm \<Rightarrow> int \<Rightarrow> direction \<Rightarrow> int list \<Rightarrow> int list" where
  "orderRequests algorithm head dir reqs =
     (let left = sort (filter (\<lambda>r. r < head) reqs);
          right = sort (filter (\<lambda>r. r \<ge> head) reqs)
      in case algorithm of
           Fcfs \<Rightarrow> reqs
         | Sstf \<Rightarrow> sstf head reqs
         | Scan \<Rightarrow> (if dir = DirRight then right @ [maxCyl] @ rev left
                     else rev left @ [0] @ right)
         | Cscan \<Rightarrow> (if dir = DirRight then right @ [maxCyl, 0] @ left
                      else rev left @ [0, maxCyl] @ rev right)
         | Look \<Rightarrow> (if dir = DirRight then right @ rev left else rev left @ right)
         | Clook \<Rightarrow> (if dir = DirRight then right @ left else rev left @ rev right))"

record disk_step =
  ds_index :: nat
  ds_position :: int
  ds_move :: int
  ds_cumulative :: int

record disk_result =
  dr_path :: "int list"
  dr_timeline :: "disk_step list"
  dr_total :: int
  dr_served :: nat

text \<open>
  The \<open>for (i = 1; i < path.length; i++)\<close> loop of \<open>simulate\<close>: \<open>prev\<close> is \<open>path[i - 1]\<close>,
  the list argument is \<open>path[i..]\<close>, and the accumulated \<open>timeline\<close> and \<open>total\<close> are returned.
\<close>

fun disk_moves :: "nat \<Rightarrow> int \<Rightarrow> int list \<Rightarrow> disk_step list \<Rightarrow> int \<Rightarrow> disk_step list \<times> int" where
  "disk_moves i prev [] steps tot = (steps, tot)"
| "disk_moves i prev (pos # rest) steps tot =
     (let move = \<bar>pos - prev\<bar>;
          tot' = tot + move
      in disk_moves (Suc i) pos rest
           (steps @ [\<lparr>ds_index = i - 1, ds_position = pos, ds_move = move,
                   ds_cumulative = tot'\<rparr>])
           tot')"

definition simulate_disk :: "disk_algorithm \<Rightarrow> int \<Rightarrow> direction \<Rightarrow> int list \<Rightarrow> disk_result" where
  "simulate_disk algorithm head dir requests =
     (let order = orderRequests algorithm head dir requests;
          path = head # order;
          (steps, tot) = disk_moves 1 head order [] 0
      in \<lparr>dr_path = path, dr_timeline = steps, dr_total = tot,
          dr_served = length order\<rparr>)"

text \<open>The average the view prints: \<open>result.total / result.served\<close>.\<close>

definition averageSeek :: "disk_result \<Rightarrow> real" where
  "averageSeek result = real_of_int (dr_total result) / real (dr_served result)"

lemma length_left_right:
  "length (filter (\<lambda>r. r < head) reqs) + length (filter (\<lambda>r. r \<ge> head) reqs)
     = length (reqs :: int list)"
  by (induction reqs) auto

lemma served_simulate_disk:
  "dr_served (simulate_disk algorithm head dir requests)
     = length (orderRequests algorithm head dir requests)"
  by (simp add: simulate_disk_def Let_def split: prod.splits)

lemma length_order_scan:
  "length (orderRequests Scan head dir reqs) = length reqs + 1"
  using length_left_right [of head reqs]
  by (simp add: orderRequests_def Let_def)

lemma length_order_cscan:
  "length (orderRequests Cscan head dir reqs) = length reqs + 2"
  using length_left_right [of head reqs]
  by (simp add: orderRequests_def Let_def)

text \<open>
  Claim C10. For every head position, direction and list of pending requests, the served
  count that the disk engine reports is the number of requests plus one under SCAN and plus
  two under CSCAN, because the boundary cylinders are part of the visit order; the average
  seek the view prints therefore divides the total by these enlarged counts.
\<close>

theorem scan_cscan_served_counts_boundaries:
  "dr_served (simulate_disk Scan head dir reqs) = length reqs + 1
   \<and> dr_served (simulate_disk Cscan head dir reqs) = length reqs + 2
   \<and> averageSeek (simulate_disk Scan head dir reqs)
       = real_of_int (dr_total (simulate_disk Scan head dir reqs)) / real (length reqs + 1)
   \<and> averageSeek (simulate_disk Cscan head dir reqs)
       = real_of_int (dr_total (simulate_disk Cscan head dir reqs)) / real (length reqs + 2)"
  by (simp only: averageSeek_def served_simulate_disk length_order_scan length_order_cscan)

section \<open>Page replacement (PageReplacement.js)\<close>

text \<open>
  Logical timestamps are integers. Page numbers are the finite numbers \<open>parseReference\<close>
  keeps; a run only compares them for equality (\<open>indexOf\<close>), and they are modelled as \<open>int\<close>.
  A frame holds \<open>null\<close> (\<open>None\<close>) or a
  page. \<open>Unknown\<close> stands for any algorithm name outside the six options, which the
  \<open>switch\<close> of \<open>simulate\<close> sends to its \<open>default\<close> branch.
\<close>

datatype page_algorithm = Fifo | Lru | Mru | Clock | Wsclock | Opt | Unknown

record frame_meta =
  m_ref :: nat
  m_lastUsed :: int

record page_step =
  ps_index :: nat
  ps_page :: int
  ps_frames :: "int option list"
  ps_fault :: bool
  ps_replacedIndex :: int

record sim_state =
  frames :: "int option list"
  meta :: "frame_meta list"
  pointer :: nat
  hits :: nat
  faults :: nat
  timeline :: "page_step list"

record sim_result =
  r_timeline :: "page_step list"
  r_hits :: nat
  r_faults :: nat
  r_references :: nat

text \<open>
  A call either returns a value or throws the TypeError that JavaScript raises on reading
  a property of \<open>undefined\<close> (here: \<open>meta[p].ref\<close> with \<open>p\<close> outside \<open>meta\<close>).
\<close>

datatype 'a outcome = Returned 'a | TypeError

record clock_result =
  c_index :: nat
  c_nextPointer :: nat
  c_meta :: "frame_meta list"

text \<open>\<open>xs.indexOf(x)\<close>, with \<open>None\<close> for \<open>-1\<close>, and \<open>xs.indexOf(x, start)\<close>.\<close>

fun indexOf :: "'a list \<Rightarrow> 'a \<Rightarrow> nat option" where
  "indexOf [] x = None"
| "indexOf (y # ys) x = (if y = x then Some 0 else map_option Suc (indexOf ys x))"

definition indexOfFrom :: "'a list \<Rightarrow> 'a \<Rightarrow> nat \<Rightarrow> nat option" where
  "indexOfFrom xs x start = map_option (\<lambda>i. i + start) (indexOf (drop start xs) x)"

definition findFifo :: "int option list \<Rightarrow> nat \<Rightarrow> nat" where
  "findFifo fs ptr = (case indexOf fs None of Some e \<Rightarrow> e | None \<Rightarrow> ptr)"

text \<open>The \<open>meta.forEach\<close> of \<open>findLRU\<close>; \<open>i\<close> is the index of the head of the list.\<close>

fun lru_scan :: "frame_meta list \<Rightarrow> nat \<Rightarrow> int \<Rightarrow> nat \<Rightarrow> nat" where
  "lru_scan [] i oldest idx = idx"
| "lru_scan (info # rest) i oldest idx =
     (if m_lastUsed info < oldest \<or> i = 0 then lru_scan rest (Suc i) (m_lastUsed info) i
      else lru_scan rest (Suc i) oldest idx)"

definition findLRU :: "int option list \<Rightarrow> frame_meta list \<Rightarrow> nat" where
  "findLRU fs ms = (case indexOf fs None of Some e \<Rightarrow> e | None \<Rightarrow> lru_scan ms 0 0 0)"

text \<open>The \<open>meta.forEach\<close> of \<open>findMRU\<close>; \<open>newest = None\<close> is \<open>-Infinity\<close>.\<close>

fun mru_scan :: "frame_meta list \<Rightarrow> nat \<Rightarrow> int option \<Rightarrow> nat \<Rightarrow> nat" where
  "mru_scan [] i newest idx = idx"
| "mru_scan (info # rest) i newest idx =
     (if (case newest of None \<Rightarrow> True | Some nw \<Rightarrow> m_lastUsed info > nw)
      then mru_scan rest (Suc i) (Some (m_lastUsed info)) i
      else mru_scan rest (Suc i) newest idx)"

definition findMRU :: "int option list \<Rightarrow> frame_meta list \<Rightarrow> nat" where
  "findMRU fs ms = (case indexOf fs None of Some e \<Rightarrow> e | None \<Rightarrow> mru_scan ms 0 None 0)"

text \<open>
  \<open>findClock\<close>. Every round that does not return clears one set reference bit, which is why
  the \<open>while (true)\<close> loop ends. The mutated \<open>meta\<close> is part of the result.
\<close>

definition refs_set :: "frame_meta list \<Rightarrow> nat" where
  "refs_set ms = length (filter (\<lambda>m. m_ref m \<noteq> 0) ms)"

lemma refs_set_clear:
  assumes "p < length ms" and "m_ref (ms ! p) \<noteq> 0"
  shows "refs_set (ms[p := (ms ! p)\<lparr>m_ref := 0\<rparr>]) < refs_set ms"
  using assms
proof (induction ms arbitrary: p)
  case Nil
  then show ?case by simp
next
  case (Cons m ms)
  show ?case
  proof (cases p)
    case 0
    with Cons.prems show ?thesis by (simp add: refs_set_def)
  next
    case (Suc q)
    with Cons.prems have "refs_set (ms[q := (ms ! q)\<lparr>m_ref := 0\<rparr>]) < refs_set ms"
      by (intro Cons.IH) simp_all
    with Suc show ?thesis by (simp add: refs_set_def)
  qed
qed

function findClock :: "int option list \<Rightarrow> frame_meta list \<Rightarrow> nat \<Rightarrow> clock_result outcome" where
  "findClock fs ms p =
     (if p < length fs \<and> fs ! p = None
      then Returned \<lparr>c_index = p, c_nextPointer = (p + 1) mod length fs, c_meta = ms\<rparr>
      else if \<not> p < length ms then TypeError
      else if m_ref (ms ! p) = 0
      then Returned \<lparr>c_index = p, c_nextPointer = (p + 1) mod length fs, c_meta = ms\<rparr>
      else findClock fs (ms[p := (ms ! p)\<lparr>m_ref := 0\<rparr>]) ((p + 1) mod length fs))"
  by pat_completeness auto
termination
  by (relation "measure (\<lambda>(fs, ms, p). refs_set ms)") (auto intro: refs_set_clear)

declare findClock.simps [simp del]

text \<open>
  \<open>findWSClock\<close>, window \<open>tau = 4\<close>. Nothing bounds its \<open>while (true)\<close> loop, so the model is
  a partial function: \<open>None\<close> means that the call never returns.
\<close>

definition tau :: int where
  "tau = 4"

partial_function (option) findWSClock ::
  "int option list \<Rightarrow> frame_meta list \<Rightarrow> nat \<Rightarrow> int \<Rightarrow> clock_result outcome option" where
  "findWSClock fs ms p currentTime =
     (if p < length fs \<and> fs ! p = None
      then Some (Returned \<lparr>c_index = p, c_nextPointer = (p + 1) mod length fs, c_meta = ms\<rparr>)
      else if \<not> p < length ms then Some TypeError
      else if m_ref (ms ! p) = 1
      then findWSClock fs (ms[p := \<lparr>m_ref = 0, m_lastUsed = currentTime\<rparr>])
             ((p + 1) mod length fs) currentTime
      else if currentTime - m_lastUsed (ms ! p) > tau
      then Some (Returned \<lparr>c_index = p, c_nextPointer = (p + 1) mod length fs, c_meta = ms\<rparr>)
      else findWSClock fs ms ((p + 1) mod length fs) currentTime)"

declare findWSClock.simps [code]

text \<open>
  \<open>findOPT\<close>. \<open>farthest\<close> starts at \<open>-1\<close> and becomes \<open>Infinity\<close> once a resident page has no
  later use.
\<close>

datatype farthest = Finite int | Infinity

fun opt_scan :: "int option list \<Rightarrow> nat \<Rightarrow> int list \<Rightarrow> nat \<Rightarrow> farthest \<Rightarrow> nat \<Rightarrow> nat" where
  "opt_scan [] i refs startIndex far idx = idx"
| "opt_scan (pg # rest) i refs startIndex far idx =
     (case (case pg of None \<Rightarrow> None | Some page \<Rightarrow> indexOfFrom refs page startIndex) of
        None \<Rightarrow> opt_scan rest (Suc i) refs startIndex Infinity i
      | Some nextUse \<Rightarrow>
          (if (case far of Finite f \<Rightarrow> int nextUse > f | Infinity \<Rightarrow> False)
           then opt_scan rest (Suc i) refs startIndex (Finite (int nextUse)) i
           else opt_scan rest (Suc i) refs startIndex far idx))"

definition findOPT :: "int option list \<Rightarrow> int list \<Rightarrow> nat \<Rightarrow> nat" where
  "findOPT fs refs startIndex =
     (case indexOf fs None of
        Some e \<Rightarrow> e
      | None \<Rightarrow> opt_scan fs 0 refs startIndex (Finite (- 1)) 0)"

text \<open>
  The victim choice inside the \<open>switch\<close> of \<open>simulate\<close>: the replaced index, the new
  \<open>pointer\<close> and the \<open>meta\<close> array as the search left it. \<open>now\<close> is \<open>timeline.length\<close>.
\<close>

definition choose_victim ::
  "page_algorithm \<Rightarrow> int list \<Rightarrow> nat \<Rightarrow> sim_state \<Rightarrow> (nat \<times> nat \<times> frame_meta list) outcome option" where
  "choose_victim algorithm refs index st =
     (let fs = frames st; ms = meta st; ptr = pointer st; now = int (length (timeline st))
      in case algorithm of
           Fifo \<Rightarrow> (let r = findFifo fs ptr in Some (Returned (r, (r + 1) mod length fs, ms)))
         | Lru \<Rightarrow> Some (Returned (findLRU fs ms, ptr, ms))
         | Mru \<Rightarrow> Some (Returned (findMRU fs ms, ptr, ms))
         | Clock \<Rightarrow>
             (case findClock fs ms ptr of
                TypeError \<Rightarrow> Some TypeError
              | Returned res \<Rightarrow> Some (Returned (c_index res, c_nextPointer res, c_meta res)))
         | Wsclock \<Rightarrow>
             (case findWSClock fs ms ptr now of
                None \<Rightarrow> None
              | Some TypeError \<Rightarrow> Some TypeError
              | Some (Returned res) \<Rightarrow>
                  Some (Returned (c_index res, c_nextPointer res, c_meta res)))
         | Opt \<Rightarrow> Some (Returned (findOPT fs refs (index + 1), ptr, ms))
         | Unknown \<Rightarrow>
             (let r = findFifo fs ptr in Some (Returned (r, (r + 1) mod length fs, ms))))"

text \<open>The body of \<open>refs.forEach((page, index) => ...)\<close> in \<open>simulate\<close>.\<close>

definition sim_step ::
  "page_algorithm \<Rightarrow> int list \<Rightarrow> nat \<Rightarrow> int \<Rightarrow> sim_state \<Rightarrow> sim_state outcome option" where
  "sim_step algorithm refs index page st =
     (let now = int (length (timeline st))
      in case indexOf (frames st) (Some page) of
           Some hitIndex \<Rightarrow>
             Some (Returned (st\<lparr>
               hits := hits st + 1,
               meta := (meta st)[hitIndex := \<lparr>m_ref = 1, m_lastUsed = now\<rparr>],
               timeline := timeline st @
                 [\<lparr>ps_index = index, ps_page = page, ps_frames = frames st,
                   ps_fault = False, ps_replacedIndex = - 1\<rparr>]\<rparr>))
         | None \<Rightarrow>
             (case choose_victim algorithm refs index st of
                None \<Rightarrow> None
              | Some TypeError \<Rightarrow> Some TypeError
              | Some (Returned (replacedIndex, ptr', ms')) \<Rightarrow>
                  (let fs' = (frames st)[replacedIndex := Some page]
                   in Some (Returned (st\<lparr>
                        frames := fs',
                        meta := ms'[replacedIndex := \<lparr>m_ref = 1, m_lastUsed = now\<rparr>],
                        pointer := ptr',
                        faults := faults st + 1,
                        timeline := timeline st @
                          [\<lparr>ps_index = index, ps_page = page, ps_frames = fs',
                            ps_fault = True, ps_replacedIndex = int replacedIndex\<rparr>]\<rparr>)))))"

text \<open>\<open>refs.forEach\<close>: the pages still to come, with the index of the first of them.\<close>

fun sim_loop ::
  "page_algorithm \<Rightarrow> int list \<Rightarrow> int list \<Rightarrow> nat \<Rightarrow> sim_state \<Rightarrow> sim_state outcome option" where
  "sim_loop algorithm refs [] index st = Some (Returned st)"
| "sim_loop algorithm refs (page # rest) index st =
     (case sim_step algorithm refs index page st of
        None \<Rightarrow> None
      | Some TypeError \<Rightarrow> Some TypeError
      | Some (Returned st') \<Rightarrow> sim_loop algorithm refs rest (Suc index) st')"

definition initial_state :: "nat \<Rightarrow> sim_state" where
  "initial_state framesCount =
     \<lparr>frames = replicate framesCount None,
      meta = replicate framesCount \<lparr>m_ref = 0, m_lastUsed = - 1\<rparr>,
      pointer = 0, hits = 0, faults = 0, timeline = []\<rparr>"

text \<open>
  \<open>simulate\<close>. The view calls it with \<open>framesCount > 0\<close> only; under that condition every
  index written stays inside \<open>frames\<close> (lemma \<open>sim_step_cases\<close> below), so the array never grows.
\<close>

definition simulate :: "page_algorithm \<Rightarrow> nat \<Rightarrow> int list \<Rightarrow> sim_result outcome option" where
  "simulate algorithm framesCount refs =
     (case sim_loop algorithm refs refs 0 (initial_state framesCount) of
        None \<Rightarrow> None
      | Some TypeError \<Rightarrow> Some TypeError
      | Some (Returned st) \<Rightarrow>
          Some (Returned \<lparr>r_timeline = timeline st, r_hits = hits st, r_faults = faults st,
                          r_references = length refs\<rparr>))"

text \<open>\<open>detectBelady\<close>: \<open>Some (smaller, larger)\<close> is the anomaly report, \<open>None\<close> is \<open>null\<close>.\<close>

definition detectBelady :: "int list \<Rightarrow> nat \<Rightarrow> (nat \<times> nat) option outcome option" where
  "detectBelady refs n =
     (case simulate Fifo n refs of
        None \<Rightarrow> None
      | Some TypeError \<Rightarrow> Some TypeError
      | Some (Returned base) \<Rightarrow>
          (case simulate Fifo (n + 1) refs of
             None \<Rightarrow> None
           | Some TypeError \<Rightarrow> Some TypeError
           | Some (Returned larger) \<Rightarrow>
               Some (Returned (if r_faults larger > r_faults base
                               then Some (r_faults base, r_faults larger) else None))))"

definition defaultRef :: "int list" where
  "defaultRef = [7, 0, 1, 2, 0, 3, 0, 4, 2, 3, 0, 3, 2]"

text \<open>
  A state of the WSClock search that can never return: every frame holds a page, and every
  frame either has its reference bit set or was used within the last \<open>tau\<close> time units.
\<close>

definition stuck :: "int option list \<Rightarrow> frame_meta list \<Rightarrow> nat \<Rightarrow> int \<Rightarrow> bool" where
  "stuck fs ms p t \<longleftrightarrow>
     None \<notin> set fs \<and> length ms = length fs \<and> p < length fs
     \<and> list_all (\<lambda>m. m_ref m = 1 \<or> t - m_lastUsed m \<le> tau) ms"

lemma stuck_mod: "stuck fs ms p t \<Longrightarrow> stuck fs ms ((p + 1) mod length fs) t"
proof -
  assume s: "stuck fs ms p t"
  then have "0 < length fs" by (auto simp: stuck_def)
  then have "(p + 1) mod length fs < length fs" by (rule mod_less_divisor)
  with s show ?thesis by (simp add: stuck_def)
qed

lemma stuck_refresh:
  "stuck fs ms p t \<Longrightarrow> stuck fs (ms[p := \<lparr>m_ref = 0, m_lastUsed = t\<rparr>]) ((p + 1) mod length fs) t"
proof -
  assume s: "stuck fs ms p t"
  then have "0 < length fs" by (auto simp: stuck_def)
  then have "(p + 1) mod length fs < length fs" by (rule mod_less_divisor)
  with s show ?thesis
    unfolding stuck_def list_all_iff
    by (auto simp: tau_def dest!: set_update_subset_insert [THEN subsetD])
qed

lemma stuck_no_return: "findWSClock fs ms p t = Some y \<Longrightarrow> \<not> stuck fs ms p t"
proof (induction rule: findWSClock.raw_induct [rotated 1, consumes 1])
  case (1 f fs ms p t y)
  show ?case
  proof
    assume s: "stuck fs ms p t"
    then have p: "p < length ms" "p < length fs"
      and old: "m_ref (ms ! p) = 1 \<or> t - m_lastUsed (ms ! p) \<le> tau"
      by (auto simp: stuck_def list_all_length)
    from s have "None \<notin> set fs" by (simp add: stuck_def)
    with p(2) have full: "fs ! p \<noteq> None" by (metis nth_mem)
    show False
    proof (cases "m_ref (ms ! p) = 1")
      case True
      with 1(2) full p
      have "f fs (ms[p := \<lparr>m_ref = 0, m_lastUsed = t\<rparr>]) ((p + 1) mod length fs) t = Some y"
        by simp
      from 1(1) [OF this] stuck_refresh [OF s] show False by simp
    next
      case False
      with 1(2) full p old
      have "f fs ms ((p + 1) mod length fs) t = Some y"
        by simp
      from 1(1) [OF this] stuck_mod [OF s] show False by simp
    qed
  qed
qed

lemma findWSClock_diverges: "stuck fs ms p t \<Longrightarrow> findWSClock fs ms p t = None"
  using stuck_no_return by (cases "findWSClock fs ms p t") auto


text \<open>
  The run of \<open>simulate('wsclock', 3, defaultRef)\<close>, the input with which the view starts:
  the states after the first three references, which fill the three frames.
\<close>

definition ws1 :: sim_state where
  "ws1 = \<lparr>frames = [Some 7, None, None],
           meta = [\<lparr>m_ref = 1, m_lastUsed = 0\<rparr>, \<lparr>m_ref = 0, m_lastUsed = - 1\<rparr>,
                   \<lparr>m_ref = 0, m_lastUsed = - 1\<rparr>],
           pointer = 1, hits = 0, faults = 1,
           timeline = [\<lparr>ps_index = 0, ps_page = 7, ps_frames = [Some 7, None, None],
                        ps_fault = True, ps_replacedIndex = 0\<rparr>]\<rparr>"

definition ws2 :: sim_state where
  "ws2 = \<lparr>frames = [Some 7, Some 0, None],
           meta = [\<lparr>m_ref = 1, m_lastUsed = 0\<rparr>, \<lparr>m_ref = 1, m_lastUsed = 1\<rparr>,
                   \<lparr>m_ref = 0, m_lastUsed = - 1\<rparr>],
           pointer = 2, hits = 0, faults = 2,
           timeline = timeline ws1 @
             [\<lparr>ps_index = 1, ps_page = 0, ps_frames = [Some 7, Some 0, None],
               ps_fault = True, ps_replacedIndex = 1\<rparr>]\<rparr>"

definition ws3 :: sim_state where
  "ws3 = \<lparr>frames = [Some 7, Some 0, Some 1],
           meta = [\<lparr>m_ref = 1, m_lastUsed = 0\<rparr>, \<lparr>m_ref = 1, m_lastUsed = 1\<rparr>,
                   \<lparr>m_ref = 1, m_lastUsed = 2\<rparr>],
           pointer = 0, hits = 0, faults = 3,
           timeline = timeline ws2 @
             [\<lparr>ps_index = 2, ps_page = 1, ps_frames = [Some 7, Some 0, Some 1],
               ps_fault = True, ps_replacedIndex = 2\<rparr>]\<rparr>"

lemma findWSClock_empty:
  "p < length fs \<Longrightarrow> fs ! p = None \<Longrightarrow>
   findWSClock fs ms p t =
     Some (Returned \<lparr>c_index = p, c_nextPointer = (p + 1) mod length fs, c_meta = ms\<rparr>)"
  by (subst findWSClock.simps) simp

lemma ws_step1: "sim_step Wsclock defaultRef 0 7 (initial_state 3) = Some (Returned ws1)"
  by code_simp

lemma ws_step2: "sim_step Wsclock defaultRef (Suc 0) 0 ws1 = Some (Returned ws2)"
  by code_simp

lemma ws_step3: "sim_step Wsclock defaultRef (Suc (Suc 0)) 1 ws2 = Some (Returned ws3)"
  by code_simp

lemma ws_step4: "sim_step Wsclock defaultRef (Suc (Suc (Suc 0))) 2 ws3 = None"
proof -
  have "stuck (frames ws3) (meta ws3) (pointer ws3) (int (length (timeline ws3)))"
    by (simp add: stuck_def ws3_def)
  then have "findWSClock (frames ws3) (meta ws3) (pointer ws3) (int (length (timeline ws3))) = None"
    by (rule findWSClock_diverges)
  moreover have "indexOf (frames ws3) (Some 2) = None"
    by (simp add: ws3_def)
  ultimately show ?thesis
    by (simp add: sim_step_def choose_victim_def Let_def)
qed

text \<open>
  Claim C2 (evaluated where it fails). With three frames and the reference string
  7 0 1 2 0 3 0 4 2 3 0 3 2, the WSClock simulation never returns: the fourth reference
  faults with all frames full and all reference bits set, \<open>findWSClock\<close> clears the bits and
  refreshes every timestamp to the current time, and from then on no frame is older than
  the window.
\<close>

theorem wsclock_default_never_returns: "simulate Wsclock 3 defaultRef = None"
proof -
  have "sim_loop Wsclock defaultRef defaultRef 0 (initial_state 3) = None"
  proof -
    have "sim_loop Wsclock defaultRef [7, 0, 1, 2, 0, 3, 0, 4, 2, 3, 0, 3, 2] 0 (initial_state 3)
            = None"
      by (simp only: sim_loop.simps ws_step1 ws_step2 ws_step3 ws_step4 option.case outcome.case)
    then show ?thesis by (subst (2) defaultRef_def)
  qed
  then show ?thesis by (simp add: simulate_def)
qed

text \<open>
  Claim C3, as stated, fails: on the reference string 7 0 1 2 0 3 0 4 2 3 0 3 2 the Belady
  check with 3 frames returns \<open>null\<close>, that is, it reports no anomaly.
\<close>

theorem belady_default_reports_nothing: "detectBelady defaultRef 3 = Some (Returned None)"
  by code_simp

text \<open>
  Claim C3, amended. On that reference string FIFO faults 10 times with 3 frames and 7 times
  with 4 frames, so the larger frame count gives fewer faults.
\<close>

theorem belady_default_fault_counts:
  "map_option (map_outcome r_faults) (simulate Fifo 3 defaultRef) = Some (Returned 10)
   \<and> map_option (map_outcome r_faults) (simulate Fifo 4 defaultRef) = Some (Returned 7)"
  by code_simp

subsection \<open>The searches stay inside the frames\<close>

lemma indexOf_Some: "indexOf xs x = Some i \<Longrightarrow> i < length xs \<and> xs ! i = x"
proof (induction xs arbitrary: i)
  case Nil
  then show ?case by simp
next
  case (Cons y ys)
  show ?case
  proof (cases "y = x")
    case True
    with Cons.prems show ?thesis by simp
  next
    case False
    with Cons.prems obtain j where "indexOf ys x = Some j" "i = Suc j" by auto
    with Cons.IH [of j] show ?thesis by simp
  qed
qed

lemma indexOf_None: "indexOf xs x = None \<longleftrightarrow> x \<notin> set xs"
  by (induction xs) auto

lemma lru_scan_range: "lru_scan ms i oldest idx = idx \<or> lru_scan ms i oldest idx \<in> {i..<i + length ms}"
proof (induction ms arbitrary: i oldest idx)
  case Nil
  then show ?case by simp
next
  case (Cons m ms)
  from Cons.IH [of "Suc i" "m_lastUsed m" i] Cons.IH [of "Suc i" oldest idx]
  show ?case by auto
qed

lemma mru_scan_range: "mru_scan ms i newest idx = idx \<or> mru_scan ms i newest idx \<in> {i..<i + length ms}"
proof (induction ms arbitrary: i newest idx)
  case Nil
  then show ?case by simp
next
  case (Cons m ms)
  from Cons.IH [of "Suc i" "Some (m_lastUsed m)" i] Cons.IH [of "Suc i" newest idx]
  show ?case by auto
qed

lemma findFifo_range: "ptr < length fs \<Longrightarrow> findFifo fs ptr < length fs"
  by (auto simp: findFifo_def split: option.splits dest: indexOf_Some)

lemma findLRU_range: "0 < length fs \<Longrightarrow> length ms = length fs \<Longrightarrow> findLRU fs ms < length fs"
  using lru_scan_range [of ms 0 0 0]
  by (auto simp: findLRU_def split: option.splits dest: indexOf_Some)

lemma findMRU_range: "0 < length fs \<Longrightarrow> length ms = length fs \<Longrightarrow> findMRU fs ms < length fs"
  using mru_scan_range [of ms 0 None 0]
  by (auto simp: findMRU_def split: option.splits dest: indexOf_Some)

lemma findClock_range:
  "p < length fs \<Longrightarrow> length ms = length fs \<Longrightarrow>
   \<exists>res. findClock fs ms p = Returned res \<and> c_index res < length fs
         \<and> c_nextPointer res < length fs \<and> length (c_meta res) = length fs"
proof (induction fs ms p rule: findClock.induct)
  case (1 fs ms p)
  from 1(2) have pos: "0 < length fs" by auto
  then have nxt: "(p + 1) mod length fs < length fs" by simp
  show ?case
  proof (cases "fs ! p = None \<or> m_ref (ms ! p) = 0")
    case True
    with 1(2,3) nxt show ?thesis by (subst findClock.simps) auto
  next
    case False
    with 1(2,3) have "findClock fs ms p
        = findClock fs (ms[p := (ms ! p)\<lparr>m_ref := 0\<rparr>]) ((p + 1) mod length fs)"
      by (subst findClock.simps) auto
    moreover from False 1(2,3) nxt have
      "\<exists>res. findClock fs (ms[p := (ms ! p)\<lparr>m_ref := 0\<rparr>]) ((p + 1) mod length fs) = Returned res
         \<and> c_index res < length fs \<and> c_nextPointer res < length fs
         \<and> length (c_meta res) = length fs"
      by (intro 1(1)) auto
    ultimately show ?thesis by simp
  qed
qed

lemma findWSClock_range:
  "findWSClock fs ms p t = Some out \<Longrightarrow> p < length fs \<Longrightarrow> length ms = length fs \<Longrightarrow>
   \<exists>res. out = Returned res \<and> c_index res < length fs
         \<and> c_nextPointer res < length fs \<and> length (c_meta res) = length fs"
proof (induction rule: findWSClock.raw_induct [rotated 1, consumes 1])
  case (1 f fs ms p t out)
  from 1(3) have pos: "0 < length fs" by auto
  then have nxt: "(p + 1) mod length fs < length fs" by simp
  show ?case
  proof (cases "fs ! p = None")
    case True
    with 1(2,3,4) nxt show ?thesis by auto
  next
    case full: False
    show ?thesis
    proof (cases "m_ref (ms ! p) = 1")
      case True
      with full 1(2,3,4) have
        "f fs (ms[p := \<lparr>m_ref = 0, m_lastUsed = t\<rparr>]) ((p + 1) mod length fs) t = Some out"
        by auto
      from 1(1) [OF this nxt] 1(4) show ?thesis by simp
    next
      case False
      show ?thesis
      proof (cases "t - m_lastUsed (ms ! p) > tau")
        case True
        with False full 1(2,3,4) nxt show ?thesis by auto
      next
        case young: False
        with False full 1(2,3,4) have "f fs ms ((p + 1) mod length fs) t = Some out"
          by auto
        from 1(1) [OF this nxt 1(4)] show ?thesis .
      qed
    qed
  qed
qed

subsection \<open>The least number of faults\<close>

text \<open>
  What any replacement policy can do on a page fault: with \<open>S\<close> the set of resident pages and
  \<open>r\<close> the page referenced, the next resident set contains \<open>r\<close>, brings in nothing else and
  fits in \<open>n\<close> frames. \<open>best n rs S\<close> is the least number of faults with which the reference
  string \<open>rs\<close> can be served from the resident set \<open>S\<close>.
\<close>

definition succs :: "nat \<Rightarrow> 'a \<Rightarrow> 'a set \<Rightarrow> 'a set set" where
  "succs n r S = {S'. S' \<subseteq> insert r S \<and> r \<in> S' \<and> card S' \<le> n}"

primrec best :: "nat \<Rightarrow> 'a list \<Rightarrow> 'a set \<Rightarrow> nat" where
  "best n [] = (\<lambda>S. 0)"
| "best n (r # rs) =
     (\<lambda>S. if r \<in> S then best n rs S else 1 + Min (best n rs ` succs n r S))"

text \<open>\<open>before a b rs\<close>: in \<open>rs\<close> the page \<open>b\<close> is not referenced before the page \<open>a\<close> is.\<close>

primrec before :: "'a \<Rightarrow> 'a \<Rightarrow> 'a list \<Rightarrow> bool" where
  "before a b [] = True"
| "before a b (r # rs) = (r = a \<or> (r \<noteq> b \<and> before a b rs))"

lemma finite_succs: "finite S \<Longrightarrow> finite (succs n r S)"
proof -
  assume "finite S"
  then have "finite (Pow (insert r S))" by simp
  moreover have "succs n r S \<subseteq> Pow (insert r S)" by (auto simp: succs_def)
  ultimately show ?thesis by (rule rev_finite_subset)
qed

lemma succs_finite_member: "finite S \<Longrightarrow> S' \<in> succs n r S \<Longrightarrow> finite S'"
  by (auto simp: succs_def intro: finite_subset [of _ "insert r S"])

lemma succs_nonempty: "0 < n \<Longrightarrow> succs n r S \<noteq> {}"
proof -
  assume "0 < n"
  then have "{r} \<in> succs n r S" by (simp add: succs_def)
  then show ?thesis by blast
qed

lemma best_miss_le:
  assumes "finite S" and "r \<notin> S" and "S' \<in> succs n r S"
  shows "best n (r # rs) S \<le> 1 + best n rs S'"
proof -
  have "Min (best n rs ` succs n r S) \<le> best n rs S'"
    using assms by (intro Min_le) (simp_all add: finite_succs)
  with assms(2) show ?thesis by simp
qed

lemma best_miss_obtain:
  assumes "finite S" and "0 < n" and "r \<notin> S"
  obtains S' where "S' \<in> succs n r S" and "best n (r # rs) S = 1 + best n rs S'"
proof -
  have "Min (best n rs ` succs n r S) \<in> best n rs ` succs n r S"
    using assms by (intro Min_in) (simp_all add: finite_succs succs_nonempty)
  then obtain S' where "S' \<in> succs n r S" "Min (best n rs ` succs n r S) = best n rs S'"
    by auto
  with assms(3) that show ?thesis by simp
qed

lemma best_mono:
  "finite T \<Longrightarrow> S \<subseteq> T \<Longrightarrow> card T \<le> n \<Longrightarrow> 0 < n \<Longrightarrow> best n rs T \<le> best n rs S"
proof (induction rs arbitrary: S T)
  case Nil
  then show ?case by simp
next
  case (Cons r rs)
  from Cons.prems have finS: "finite S" by (auto intro: finite_subset)
  show ?case
  proof (cases "r \<in> S")
    case True
    with Cons.prems have "r \<in> T" by auto
    with True Cons.IH [OF Cons.prems] show ?thesis by simp
  next
    case False
    from best_miss_obtain [OF finS Cons.prems(4) False, of rs]
    obtain S' where S': "S' \<in> succs n r S" and eq: "best n (r # rs) S = 1 + best n rs S'"
      by blast
    show ?thesis
    proof (cases "r \<in> T")
      case True
      with S' Cons.prems(2) have "S' \<subseteq> T" by (auto simp: succs_def)
      from Cons.IH [OF Cons.prems(1) this Cons.prems(3,4)] True eq show ?thesis by simp
    next
      case notT: False
      from S' Cons.prems(2) have "S' \<in> succs n r T" by (auto simp: succs_def)
      from best_miss_le [OF Cons.prems(1) notT this, of rs] eq show ?thesis by simp
    qed
  qed
qed

lemma best_swap:
  "finite S \<Longrightarrow> card S \<le> n \<Longrightarrow> card T \<le> n \<Longrightarrow> T \<subseteq> insert y S \<Longrightarrow> 0 < n \<Longrightarrow>
   best n rs S \<le> 1 + best n rs T"
proof (induction rs arbitrary: S T)
  case Nil
  then show ?case by simp
next
  case (Cons r rs)
  from Cons.prems have finT: "finite T" by (auto intro: finite_subset [of _ "insert y S"])
  show ?case
  proof (cases "r \<in> T")
    case inT: True
    show ?thesis
    proof (cases "r \<in> S")
      case True
      with inT Cons.IH [OF Cons.prems] show ?thesis by simp
    next
      case False
      with inT Cons.prems(4) have "T \<subseteq> insert r S" by auto
      with inT Cons.prems(3) have "T \<in> succs n r S" by (simp add: succs_def)
      from best_miss_le [OF Cons.prems(1) False this, of rs] inT show ?thesis by simp
    qed
  next
    case notT: False
    from best_miss_obtain [OF finT Cons.prems(5) notT, of rs]
    obtain T' where T': "T' \<in> succs n r T" and eq: "best n (r # rs) T = 1 + best n rs T'"
      by blast
    from T' have cardT': "card T' \<le> n" and rT': "r \<in> T'" and subT': "T' \<subseteq> insert r T"
      by (auto simp: succs_def)
    from succs_finite_member [OF finT T'] have finT': "finite T'" .
    show ?thesis
    proof (cases "r \<in> S")
      case True
      with subT' Cons.prems(4) have "T' \<subseteq> insert y S" by auto
      from Cons.IH [OF Cons.prems(1,2) cardT' this Cons.prems(5)] True eq show ?thesis by simp
    next
      case False
      define S' where "S' = T' \<inter> insert r S"
      have finS': "finite S'" using finT' by (simp add: S'_def)
      have "card S' \<le> card T'" unfolding S'_def by (rule card_mono [OF finT']) simp
      with cardT' have cardS': "card S' \<le> n" by simp
      from rT' have "S' \<in> succs n r S" using cardS' by (auto simp: succs_def S'_def)
      from best_miss_le [OF Cons.prems(1) False this, of rs]
      have a: "best n (r # rs) S \<le> 1 + best n rs S'" .
      from subT' Cons.prems(4) have "T' \<subseteq> insert y S'" by (auto simp: S'_def)
      from Cons.IH [OF finS' cardS' cardT' this Cons.prems(5)]
      have "best n rs S' \<le> 1 + best n rs T'" .
      with a eq show ?thesis by simp
    qed
  qed
qed

lemma best_exchange:
  "finite S \<Longrightarrow> card S \<le> n \<Longrightarrow> card T \<le> n \<Longrightarrow> a \<in> S \<Longrightarrow> a \<notin> T \<Longrightarrow>
   T \<subseteq> insert b S \<Longrightarrow> before a b rs \<Longrightarrow> 0 < n \<Longrightarrow> best n rs S \<le> best n rs T"
proof (induction rs arbitrary: S T)
  case Nil
  then show ?case by simp
next
  case (Cons r rs)
  note fin = Cons.prems(1) and cS = Cons.prems(2) and cT = Cons.prems(3)
    and aS = Cons.prems(4) and aT = Cons.prems(5) and sub = Cons.prems(6) and n = Cons.prems(8)
  from fin sub have finT: "finite T" by (auto intro: finite_subset [of _ "insert b S"])
  show ?case
  proof (cases "r \<in> T")
    case inT: True
    with aT have ra: "r \<noteq> a" by auto
    with Cons.prems(7) have rb: "r \<noteq> b" and bef: "before a b rs" by auto
    from inT sub rb have "r \<in> S" by auto
    with inT Cons.IH [OF fin cS cT aS aT sub bef n] show ?thesis by simp
  next
    case notT: False
    from best_miss_obtain [OF finT n notT, of rs]
    obtain T' where T': "T' \<in> succs n r T" and eq: "best n (r # rs) T = 1 + best n rs T'"
      by blast
    from T' have cardT': "card T' \<le> n" and rT': "r \<in> T'" and subT': "T' \<subseteq> insert r T"
      by (auto simp: succs_def)
    from succs_finite_member [OF finT T'] have finT': "finite T'" .
    show ?thesis
    proof (cases "r \<in> S")
      case True
      with subT' sub have "T' \<subseteq> insert b S" by auto
      from best_swap [OF fin cS cardT' this n, of rs] True eq show ?thesis by simp
    next
      case False
      with aS have ra: "r \<noteq> a" by auto
      with Cons.prems(7) have rb: "r \<noteq> b" and bef: "before a b rs" by auto
      show ?thesis
      proof (cases "b \<in> T'")
        case bT': False
        with subT' sub have "T' \<subseteq> insert r S" by auto
        with rT' cardT' have "T' \<in> succs n r S" by (simp add: succs_def)
        from best_miss_le [OF fin False this, of rs] eq show ?thesis by simp
      next
        case bT': True
        define S' where "S' = insert a (T' - {b})"
        have finS': "finite S'" using finT' by (simp add: S'_def)
        have "card S' \<le> Suc (card (T' - {b}))"
          unfolding S'_def using finT' by (simp add: card_insert_if)
        also have "\<dots> = card T'" using finT' bT' by (rule card_Suc_Diff1)
        finally have cardS': "card S' \<le> n" using cardT' by simp
        have "S' \<subseteq> insert r S" using subT' sub aS by (auto simp: S'_def)
        moreover have "r \<in> S'" using rT' rb by (simp add: S'_def)
        ultimately have "S' \<in> succs n r S" using cardS' by (simp add: succs_def)
        from best_miss_le [OF fin False this, of rs]
        have a: "best n (r # rs) S \<le> 1 + best n rs S'" .
        have "a \<in> S'" by (simp add: S'_def)
        moreover have "a \<notin> T'" using subT' aT ra by auto
        moreover have "T' \<subseteq> insert b S'" by (auto simp: S'_def)
        ultimately have "best n rs S' \<le> best n rs T'"
          using Cons.IH [OF finS' cardS' cardT' _ _ _ bef n] by blast
        with a eq show ?thesis by simp
      qed
    qed
  qed
qed

subsection \<open>OPT attains the least number of faults\<close>

text \<open>The next use of the page in a frame, from position \<open>start\<close> of the reference string.\<close>

definition nextUse :: "int list \<Rightarrow> nat \<Rightarrow> int option \<Rightarrow> nat option" where
  "nextUse refs start pg = (case pg of None \<Rightarrow> None | Some page \<Rightarrow> indexOfFrom refs page start)"

text \<open>
  The invariant of the \<open>forEach\<close> of \<open>findOPT\<close> over the frames seen so far, and what its
  result is when no frame is empty: the index of a frame whose page is used again no sooner
  than the page of any other frame.
\<close>

definition scan_inv :: "int list \<Rightarrow> nat \<Rightarrow> int option list \<Rightarrow> farthest \<Rightarrow> nat \<Rightarrow> bool" where
  "scan_inv refs start pre far idx \<longleftrightarrow>
     (far = Finite (- 1) \<and> pre = [])
     \<or> (far = Infinity \<and> idx < length pre \<and> nextUse refs start (pre ! idx) = None)
     \<or> (\<exists>m. far = Finite (int m) \<and> idx < length pre
            \<and> nextUse refs start (pre ! idx) = Some m
            \<and> (\<forall>j < length pre. \<exists>k. nextUse refs start (pre ! j) = Some k \<and> k \<le> m))"

definition farthest_at :: "int list \<Rightarrow> nat \<Rightarrow> int option list \<Rightarrow> nat \<Rightarrow> bool" where
  "farthest_at refs start fs r \<longleftrightarrow>
     r < length fs
     \<and> (nextUse refs start (fs ! r) = None
         \<or> (\<exists>m. nextUse refs start (fs ! r) = Some m
               \<and> (\<forall>j < length fs. \<exists>k. nextUse refs start (fs ! j) = Some k \<and> k \<le> m)))"

lemma scan_inv_final: "scan_inv refs start pre far idx \<Longrightarrow> pre \<noteq> [] \<Longrightarrow> farthest_at refs start pre idx"
  by (auto simp: scan_inv_def farthest_at_def)

lemma scan_inv_never:
  assumes "nextUse refs start pg = None"
  shows "scan_inv refs start (pre @ [pg]) Infinity (length pre)"
  using assms by (simp add: scan_inv_def)

lemma scan_inv_farther:
  assumes "scan_inv refs start pre (Finite f) idx" and "nextUse refs start pg = Some k"
    and "f < int k"
  shows "scan_inv refs start (pre @ [pg]) (Finite (int k)) (length pre)"
proof -
  have "\<forall>j < length (pre @ [pg]). \<exists>k'. nextUse refs start ((pre @ [pg]) ! j) = Some k' \<and> k' \<le> k"
  proof (intro allI impI)
    fix j assume j: "j < length (pre @ [pg])"
    show "\<exists>k'. nextUse refs start ((pre @ [pg]) ! j) = Some k' \<and> k' \<le> k"
    proof (cases "j < length pre")
      case True
      with assms(1) obtain m k' where "f = int m" "nextUse refs start (pre ! j) = Some k'" "k' \<le> m"
        by (auto simp: scan_inv_def)
      with assms(3) True show ?thesis by (simp add: nth_append)
    next
      case False
      with j have "j = length pre" by simp
      with assms(2) show ?thesis by simp
    qed
  qed
  with assms(2) show ?thesis by (simp add: scan_inv_def)
qed

lemma scan_inv_keep:
  assumes "scan_inv refs start pre far idx" and "nextUse refs start pg = Some k"
    and "\<not> (case far of Finite f \<Rightarrow> int k > f | Infinity \<Rightarrow> False)"
  shows "scan_inv refs start (pre @ [pg]) far idx"
proof (cases far)
  case Infinity
  with assms(1) show ?thesis by (auto simp: scan_inv_def nth_append)
next
  case (Finite f)
  with assms(3) have le: "int k \<le> f" by simp
  with assms(1) Finite obtain m where m: "f = int m" "idx < length pre"
    "nextUse refs start (pre ! idx) = Some m"
    "\<forall>j < length pre. \<exists>k'. nextUse refs start (pre ! j) = Some k' \<and> k' \<le> m"
    by (auto simp: scan_inv_def)
  have "\<forall>j < length (pre @ [pg]). \<exists>k'. nextUse refs start ((pre @ [pg]) ! j) = Some k' \<and> k' \<le> m"
  proof (intro allI impI)
    fix j assume j: "j < length (pre @ [pg])"
    show "\<exists>k'. nextUse refs start ((pre @ [pg]) ! j) = Some k' \<and> k' \<le> m"
    proof (cases "j < length pre")
      case True
      with m(4) show ?thesis by (simp add: nth_append)
    next
      case False
      with j have "j = length pre" by simp
      with assms(2) le m(1) show ?thesis by simp
    qed
  qed
  with m Finite show ?thesis by (simp add: scan_inv_def nth_append)
qed

lemma opt_scan_inv:
  "scan_inv refs start pre far idx \<Longrightarrow> i = length pre \<Longrightarrow> pre @ rest \<noteq> [] \<Longrightarrow>
   farthest_at refs start (pre @ rest) (opt_scan rest i refs start far idx)"
proof (induction rest arbitrary: pre far idx i)
  case Nil
  then show ?case by (simp add: scan_inv_final)
next
  case (Cons pg rest)
  have app: "pre @ pg # rest = (pre @ [pg]) @ rest" by simp
  have len: "Suc i = length (pre @ [pg])" using Cons.prems(2) by simp
  have ne: "(pre @ [pg]) @ rest \<noteq> []" by simp
  show ?case
  proof (cases "nextUse refs start pg")
    case None
    from scan_inv_never [OF None, of pre] Cons.prems(2)
    have "scan_inv refs start (pre @ [pg]) Infinity i" by simp
    from Cons.IH [OF this len ne] None show ?thesis
      unfolding app by (simp add: nextUse_def)
  next
    case (Some k)
    show ?thesis
    proof (cases "case far of Finite f \<Rightarrow> int k > f | Infinity \<Rightarrow> False")
      case True
      then obtain f where f: "far = Finite f" "f < int k" by (cases far) auto
      from scan_inv_farther [OF Cons.prems(1) [unfolded f(1)] Some f(2)] Cons.prems(2)
      have "scan_inv refs start (pre @ [pg]) (Finite (int k)) i" by simp
      from Cons.IH [OF this len ne] Some True show ?thesis
        unfolding app by (simp add: nextUse_def)
    next
      case False
      from scan_inv_keep [OF Cons.prems(1) Some False]
      have "scan_inv refs start (pre @ [pg]) far idx" .
      from Cons.IH [OF this len ne] Some False show ?thesis
        unfolding app by (simp add: nextUse_def)
    qed
  qed
qed

lemma findOPT_full:
  assumes "None \<notin> set fs" and "fs \<noteq> []"
  shows "farthest_at refs start fs (findOPT fs refs start)"
proof -
  from assms(1) have "indexOf fs None = None" by (simp add: indexOf_None)
  moreover have "farthest_at refs start ([] @ fs) (opt_scan fs 0 refs start (Finite (- 1)) 0)"
    by (rule opt_scan_inv) (use assms(2) in \<open>simp_all add: scan_inv_def\<close>)
  ultimately show ?thesis by (simp add: findOPT_def)
qed

lemma findOPT_empty:
  assumes "None \<in> set fs"
  shows "findOPT fs refs start < length fs \<and> fs ! findOPT fs refs start = None"
proof -
  from assms obtain e where "indexOf fs None = Some e"
    using indexOf_None [of fs None] by (cases "indexOf fs None") auto
  with indexOf_Some [OF this] show ?thesis by (simp add: findOPT_def)
qed

lemma before_never: "b \<notin> set rs \<Longrightarrow> before a b rs"
  by (induction rs) auto

lemma before_index:
  "indexOf rs a = Some i \<Longrightarrow> indexOf rs b = Some j \<Longrightarrow> i \<le> j \<Longrightarrow> before a b rs"
proof (induction rs arbitrary: i j)
  case Nil
  then show ?case by simp
next
  case (Cons r rs)
  show ?case
  proof (cases "r = a")
    case True
    then show ?thesis by simp
  next
    case False
    with Cons.prems(1) obtain i' where i': "indexOf rs a = Some i'" "i = Suc i'" by auto
    with Cons.prems(3) have "r \<noteq> b" using Cons.prems(2) by (auto split: if_splits)
    with Cons.prems(2) obtain j' where j': "indexOf rs b = Some j'" "j = Suc j'" by auto
    from Cons.IH [OF i'(1) j'(1)] i'(2) j'(2) Cons.prems(3) \<open>r \<noteq> b\<close> show ?thesis by simp
  qed
qed

lemma farthest_before:
  assumes "farthest_at refs start fs r" and "fs ! r = Some far" and "j < length fs"
    and "fs ! j = Some v"
  shows "before v far (drop start refs)"
proof (cases "nextUse refs start (fs ! r)")
  case None
  with assms(2) have "indexOf (drop start refs) far = None"
    by (simp add: nextUse_def indexOfFrom_def)
  then have "far \<notin> set (drop start refs)" by (simp add: indexOf_None)
  then show ?thesis by (rule before_never)
next
  case (Some m)
  with assms(1,3) obtain k where k: "nextUse refs start (fs ! j) = Some k" "k \<le> m"
    by (auto simp: farthest_at_def)
  from Some assms(2) obtain m' where m': "indexOf (drop start refs) far = Some m'" "m = m' + start"
    by (auto simp: nextUse_def indexOfFrom_def)
  from k(1) assms(4) obtain k' where k': "indexOf (drop start refs) v = Some k'" "k = k' + start"
    by (auto simp: nextUse_def indexOfFrom_def)
  from k(2) m'(2) k'(2) have "k' \<le> m'" by simp
  from before_index [OF k'(1) m'(1) this] show ?thesis .
qed


text \<open>
  The state of a run over \<open>n\<close> frames, and the set of pages resident in the frames.
\<close>

definition sim_inv :: "nat \<Rightarrow> sim_state \<Rightarrow> bool" where
  "sim_inv n st \<longleftrightarrow> length (frames st) = n \<and> length (meta st) = n \<and> pointer st < n"

definition pages_of :: "int option list \<Rightarrow> int set" where
  "pages_of fs = {page. Some page \<in> set fs}"

lemma finite_pages_of: "finite (pages_of fs)"
proof -
  have "Some ` pages_of fs \<subseteq> set fs" by (auto simp: pages_of_def)
  then have "finite (Some ` pages_of fs)" by (rule finite_subset) simp
  then show ?thesis by (rule finite_imageD) simp
qed

lemma card_pages_of: "card (pages_of fs) \<le> length fs"
proof -
  have "Some ` pages_of fs \<subseteq> set fs" by (auto simp: pages_of_def)
  then have "card (Some ` pages_of fs) \<le> card (set fs)" by (intro card_mono) simp_all
  moreover have "card (Some ` pages_of fs) = card (pages_of fs)" by (rule card_image) simp
  moreover have "card (set fs) \<le> length fs" by (rule card_length)
  ultimately show ?thesis by simp
qed

lemma pages_of_update:
  assumes "i < length fs"
  shows "pages_of (fs[i := Some page]) \<in> succs (length fs) page (pages_of fs)"
proof -
  have "pages_of (fs[i := Some page]) \<subseteq> insert page (pages_of fs)"
    using set_update_subset_insert [of fs i "Some page"] by (auto simp: pages_of_def)
  moreover from assms have "page \<in> pages_of (fs[i := Some page])"
    by (auto simp: pages_of_def set_conv_nth intro!: exI [of _ i])
  moreover have "card (pages_of (fs[i := Some page])) \<le> length fs"
    using card_pages_of [of "fs[i := Some page]"] by simp
  ultimately show ?thesis by (simp add: succs_def)
qed

lemma choose_victim_range:
  assumes "sim_inv n st" and "choose_victim alg refs index st = Some out"
  shows "\<exists>r ptr' ms'. out = Returned (r, ptr', ms') \<and> r < n \<and> ptr' < n \<and> length ms' = n"
proof -
  from assms(1) have inv: "length (frames st) = n" "length (meta st) = n" "pointer st < n"
    by (simp_all add: sim_inv_def)
  then have pos: "0 < n" by simp
  with inv have md: "\<And>x. x mod length (frames st) < length (frames st)" by simp
  have fifo: "findFifo (frames st) (pointer st) < n"
    using findFifo_range [of "pointer st" "frames st"] inv by simp
  show ?thesis
  proof (cases alg)
    case Fifo
    with assms(2) inv fifo show ?thesis
      by (auto simp: choose_victim_def Let_def intro!: mod_less_divisor)
  next
    case Lru
    with assms(2) inv pos findLRU_range [of "frames st" "meta st"] show ?thesis
      by (auto simp: choose_victim_def Let_def)
  next
    case Mru
    with assms(2) inv pos findMRU_range [of "frames st" "meta st"] show ?thesis
      by (auto simp: choose_victim_def Let_def)
  next
    case Clock
    from findClock_range [of "pointer st" "frames st" "meta st"] inv
    obtain res where "findClock (frames st) (meta st) (pointer st) = Returned res"
      "c_index res < n" "c_nextPointer res < n" "length (c_meta res) = n"
      by auto
    with Clock assms(2) show ?thesis by (auto simp: choose_victim_def Let_def)
  next
    case Wsclock
    with assms(2) obtain w where
      w: "findWSClock (frames st) (meta st) (pointer st) (int (length (timeline st))) = Some w"
      by (auto simp: choose_victim_def Let_def split: option.splits)
    from findWSClock_range [OF w] inv obtain res where "w = Returned res"
      "c_index res < n" "c_nextPointer res < n" "length (c_meta res) = n"
      by auto
    with Wsclock assms(2) w show ?thesis by (auto simp: choose_victim_def Let_def)
  next
    case Opt
    have "findOPT (frames st) refs (index + 1) < n"
    proof (cases "None \<in> set (frames st)")
      case True
      from findOPT_empty [OF this] inv show ?thesis by simp
    next
      case False
      moreover from inv pos have "frames st \<noteq> []" by auto
      ultimately have "farthest_at refs (index + 1) (frames st) (findOPT (frames st) refs (index + 1))"
        by (rule findOPT_full)
      with inv show ?thesis by (simp add: farthest_at_def)
    qed
    with Opt assms(2) inv show ?thesis by (auto simp: choose_victim_def Let_def)
  next
    case Unknown
    with assms(2) inv fifo show ?thesis
      by (auto simp: choose_victim_def Let_def intro!: mod_less_divisor)
  qed
qed

lemma choose_victim_returns:
  "alg \<noteq> Wsclock \<Longrightarrow> \<exists>out. choose_victim alg refs index st = Some out"
  by (cases alg) (auto simp: choose_victim_def Let_def split: outcome.splits)

lemma sim_step_cases:
  assumes "sim_inv n st" and "sim_step alg refs index page st = Some out"
  shows "\<exists>st'. out = Returned st' \<and> sim_inv n st'
           \<and> (Some page \<in> set (frames st) \<and> frames st' = frames st \<and> faults st' = faults st
               \<or> Some page \<notin> set (frames st)
                 \<and> (\<exists>i < n. frames st' = (frames st)[i := Some page])
                 \<and> faults st' = faults st + 1)"
proof (cases "indexOf (frames st) (Some page)")
  case None
  then have miss: "Some page \<notin> set (frames st)" by (simp add: indexOf_None)
  from None assms(2) obtain v where v: "choose_victim alg refs index st = Some v"
    by (auto simp: sim_step_def Let_def split: option.splits)
  from choose_victim_range [OF assms(1) v] obtain r ptr' ms' where
    r: "v = Returned (r, ptr', ms')" "r < n" "ptr' < n" "length ms' = n"
    by blast
  with None v assms show ?thesis
    using miss by (auto simp: sim_step_def Let_def sim_inv_def)
next
  case (Some hitIndex)
  from indexOf_Some [OF Some] have "Some page \<in> set (frames st)" by (metis nth_mem)
  with Some assms show ?thesis by (auto simp: sim_step_def Let_def sim_inv_def)
qed

lemma sim_step_returns:
  "alg \<noteq> Wsclock \<Longrightarrow> \<exists>out. sim_step alg refs index page st = Some out"
  using choose_victim_returns [of alg refs index st]
  by (auto simp: sim_step_def Let_def split: option.splits outcome.splits)

lemma sim_loop_returns:
  "alg \<noteq> Wsclock \<Longrightarrow> sim_inv n st \<Longrightarrow>
   \<exists>st'. sim_loop alg refs rest index st = Some (Returned st')"
proof (induction rest arbitrary: st index)
  case Nil
  then show ?case by simp
next
  case (Cons page rest)
  from sim_step_returns [OF Cons.prems(1)] obtain out where
    out: "sim_step alg refs index page st = Some out" by blast
  from sim_step_cases [OF Cons.prems(2) out] obtain st1 where
    st1: "out = Returned st1" "sim_inv n st1" by blast
  from Cons.IH [OF Cons.prems(1) st1(2)] out st1(1) show ?case by simp
qed

lemma any_policy_ge_best:
  "0 < n \<Longrightarrow> sim_inv n st \<Longrightarrow> sim_loop alg refs rest index st = Some (Returned st') \<Longrightarrow>
   faults st + best n rest (pages_of (frames st)) \<le> faults st'"
proof (induction rest arbitrary: st index)
  case Nil
  then show ?case by simp
next
  case (Cons page rest)
  from Cons.prems(3) obtain out where out: "sim_step alg refs index page st = Some out"
    by (cases "sim_step alg refs index page st") auto
  from sim_step_cases [OF Cons.prems(2) out] obtain st1 where
    st1: "out = Returned st1" "sim_inv n st1"
    and step: "Some page \<in> set (frames st) \<and> frames st1 = frames st \<and> faults st1 = faults st
               \<or> Some page \<notin> set (frames st)
                 \<and> (\<exists>i < n. frames st1 = (frames st)[i := Some page])
                 \<and> faults st1 = faults st + 1"
    by blast
  from Cons.prems(3) out st1(1) have "sim_loop alg refs rest (Suc index) st1 = Some (Returned st')"
    by simp
  from Cons.IH [OF Cons.prems(1) st1(2) this]
  have ih: "faults st1 + best n rest (pages_of (frames st1)) \<le> faults st'" .
  from Cons.prems(2) have len: "length (frames st) = n" by (simp add: sim_inv_def)
  from step show ?case
  proof (elim disjE conjE exE)
    assume "Some page \<in> set (frames st)" "frames st1 = frames st" "faults st1 = faults st"
    with ih show ?thesis by (simp add: pages_of_def)
  next
    fix i assume miss: "Some page \<notin> set (frames st)" and i: "i < n"
      and fr: "frames st1 = (frames st)[i := Some page]" and fa: "faults st1 = faults st + 1"
    from miss have notin: "page \<notin> pages_of (frames st)" by (simp add: pages_of_def)
    from pages_of_update [of i "frames st" page] i len fr
    have "pages_of (frames st1) \<in> succs n page (pages_of (frames st))" by simp
    from best_miss_le [OF finite_pages_of notin this, of rest] ih fa show ?thesis by simp
  qed
qed


text \<open>No page sits in two frames.\<close>

definition distinct_frames :: "int option list \<Rightarrow> bool" where
  "distinct_frames fs \<longleftrightarrow>
     (\<forall>i < length fs. \<forall>j < length fs. i \<noteq> j \<longrightarrow> fs ! i = None \<or> fs ! i \<noteq> fs ! j)"

lemma distinct_frames_initial: "distinct_frames (replicate n None)"
  by (simp add: distinct_frames_def)

lemma distinct_frames_update:
  assumes "distinct_frames fs" and "Some page \<notin> set fs"
  shows "distinct_frames (fs[i := Some page])"
proof -
  from assms(2) have np: "\<And>j. j < length fs \<Longrightarrow> fs ! j \<noteq> Some page" by (metis nth_mem)
  show ?thesis
    unfolding distinct_frames_def
  proof (intro allI impI)
    fix a b
    assume a: "a < length (fs[i := Some page])" and b: "b < length (fs[i := Some page])"
      and ab: "a \<noteq> b"
    from a b have a': "a < length fs" and b': "b < length fs" by simp_all
    from assms(1) a' b' ab have old: "fs ! a = None \<or> fs ! a \<noteq> fs ! b"
      unfolding distinct_frames_def by blast
    show "fs[i := Some page] ! a = None \<or> fs[i := Some page] ! a \<noteq> fs[i := Some page] ! b"
    proof (cases "a = i")
      case True
      with ab b' np [OF b'] a' show ?thesis by (simp add: nth_list_update)
    next
      case False
      note ai = this
      show ?thesis
      proof (cases "b = i")
        case True
        with ai a' np [OF a'] b' show ?thesis by (simp add: nth_list_update)
      next
        case False
        with ai old show ?thesis by simp
      qed
    qed
  qed
qed

lemma distinct_full_frames:
  assumes "distinct_frames fs" and "None \<notin> set fs"
  shows "distinct fs"
  unfolding distinct_conv_nth
proof (intro allI impI)
  fix i j assume i: "i < length fs" and j: "j < length fs" and ij: "i \<noteq> j"
  from i have "fs ! i \<in> set fs" by (rule nth_mem)
  with assms(2) have "fs ! i \<noteq> None" by metis
  moreover from assms(1) i j ij have "fs ! i = None \<or> fs ! i \<noteq> fs ! j"
    unfolding distinct_frames_def by blast
  ultimately show "fs ! i \<noteq> fs ! j" by auto
qed

lemma pages_of_full_image:
  assumes "None \<notin> set fs"
  shows "Some ` pages_of fs = set fs"
proof (rule set_eqI)
  fix x
  show "x \<in> Some ` pages_of fs \<longleftrightarrow> x \<in> set fs"
  proof (cases x)
    case None
    with assms show ?thesis by (simp add: image_iff)
  next
    case (Some page)
    then show ?thesis by (simp add: pages_of_def image_iff)
  qed
qed

lemma card_pages_full:
  assumes "distinct_frames fs" and "None \<notin> set fs"
  shows "card (pages_of fs) = length fs"
proof -
  from distinct_full_frames [OF assms] have "card (set fs) = length fs" by (rule distinct_card)
  moreover have "card (Some ` pages_of fs) = card (pages_of fs)"
    by (rule card_image) (rule inj_Some)
  ultimately show ?thesis by (simp only: pages_of_full_image [OF assms(2)])
qed

lemma pages_of_kept:
  assumes "v \<in> pages_of fs" and "fs ! idx \<noteq> Some v"
  shows "v \<in> pages_of (fs[idx := Some page])"
proof -
  from assms(1) obtain j where j: "j < length fs" "fs ! j = Some v"
    by (auto simp: pages_of_def in_set_conv_nth)
  with assms(2) have "j \<noteq> idx" by auto
  with j have "(fs[idx := Some page]) ! j = Some v" by simp
  with j(1) show ?thesis
    by (auto simp: pages_of_def in_set_conv_nth intro!: exI [of _ j])
qed

lemma opt_choice_best:
  assumes n: "0 < n" and len: "length fs = n" and dist: "distinct_frames fs"
    and miss: "Some page \<notin> set fs" and S'': "S'' \<in> succs n page (pages_of fs)"
  shows "best n (drop start refs) (pages_of (fs[findOPT fs refs start := Some page]))
           \<le> best n (drop start refs) S''"
proof -
  define idx where "idx = findOPT fs refs start"
  define S where "S = pages_of fs"
  define S1 where "S1 = pages_of (fs[idx := Some page])"
  have fin1: "finite S1" by (simp add: S1_def finite_pages_of)
  have card1: "card S1 \<le> n" using card_pages_of [of "fs[idx := Some page]"] len by (simp add: S1_def)
  from S'' have sub: "S'' \<subseteq> insert page S" and pin: "page \<in> S''" and card'': "card S'' \<le> n"
    by (simp_all add: succs_def S_def)
  have notin: "page \<notin> S" using miss by (simp add: S_def pages_of_def)
  show ?thesis
  proof (cases "None \<in> set fs")
    case True
    from findOPT_empty [OF this, of refs start] have idx: "idx < length fs" "fs ! idx = None"
      by (simp_all add: idx_def)
    then have "page \<in> S1" by (auto simp: S1_def pages_of_def in_set_conv_nth intro!: exI [of _ idx])
    moreover have "S \<subseteq> S1"
      unfolding S_def S1_def using idx(2) by (auto intro: pages_of_kept)
    ultimately have "S'' \<subseteq> S1" using sub by auto
    from best_mono [OF fin1 this card1 n] show ?thesis by (simp add: S1_def idx_def)
  next
    case full: False
    from len n have "fs \<noteq> []" by auto
    from findOPT_full [OF full this, of refs start]
    have far_at: "farthest_at refs start fs idx" by (simp add: idx_def)
    then have idx: "idx < length fs" by (simp add: farthest_at_def)
    with full obtain far where far: "fs ! idx = Some far" by (metis nth_mem not_None_eq)
    from idx have p1: "page \<in> S1"
      by (auto simp: S1_def pages_of_def in_set_conv_nth intro!: exI [of _ idx])
    have kept: "v \<in> S1" if "v \<in> S" "v \<noteq> far" for v
      unfolding S1_def using that far by (intro pages_of_kept) (simp_all add: S_def)
    show ?thesis
    proof (cases "far \<in> S''")
      case False
      with sub p1 kept have "S'' \<subseteq> S1" by auto
      from best_mono [OF fin1 this card1 n] show ?thesis by (simp add: S1_def idx_def)
    next
      case True
      have finS'': "finite S''" using sub finite_pages_of [of fs]
        by (auto simp: S_def intro: finite_subset [of _ "insert page (pages_of fs)"])
      have cardS: "card S = n" using card_pages_full [OF dist full] len by (simp add: S_def)
      have "\<exists>v. v \<in> S \<and> v \<notin> S''"
      proof (rule ccontr)
        assume "\<not> (\<exists>v. v \<in> S \<and> v \<notin> S'')"
        then have "insert page S \<subseteq> S''" using pin by auto
        then have "card (insert page S) \<le> card S''" by (intro card_mono finS'')
        moreover have "card (insert page S) = Suc n"
          using notin cardS finite_pages_of [of fs] by (simp add: S_def)
        ultimately show False using card'' by simp
      qed
      then obtain v where v: "v \<in> S" "v \<notin> S''" by blast
      with True have vfar: "v \<noteq> far" by auto
      from v(1) obtain j where j: "j < length fs" "fs ! j = Some v"
        by (auto simp: S_def pages_of_def in_set_conv_nth)
      from farthest_before [OF far_at far j] have bef: "before v far (drop start refs)" .
      have "S'' \<subseteq> insert far S1" using sub p1 kept by auto
      from best_exchange [OF fin1 card1 card'' kept [OF v(1) vfar] v(2) this bef n]
      show ?thesis by (simp add: S1_def idx_def)
    qed
  qed
qed

lemma sim_step_opt_miss:
  assumes "Some page \<notin> set (frames st)"
    and "sim_step Opt refs index page st = Some (Returned st')"
  shows "frames st' = (frames st)[findOPT (frames st) refs (index + 1) := Some page]
         \<and> faults st' = faults st + 1"
proof -
  from assms(1) have "indexOf (frames st) (Some page) = None" by (simp add: indexOf_None)
  with assms(2) show ?thesis
    by (auto simp: sim_step_def choose_victim_def Let_def)
qed

lemma opt_le_best:
  "0 < n \<Longrightarrow> sim_inv n st \<Longrightarrow> distinct_frames (frames st) \<Longrightarrow> rest = drop index refs \<Longrightarrow>
   \<exists>st'. sim_loop Opt refs rest index st = Some (Returned st')
         \<and> faults st' \<le> faults st + best n rest (pages_of (frames st))"
proof (induction rest arbitrary: st index)
  case Nil
  then show ?case by simp
next
  case (Cons page rest)
  from Cons.prems(4) have rest: "rest = drop (Suc index) refs"
    by (metis drop_Suc list.sel(3) tl_drop)
  from sim_step_returns [of Opt refs index page st] obtain out where
    out: "sim_step Opt refs index page st = Some out" by auto
  from sim_step_cases [OF Cons.prems(2) out] obtain st1 where
    st1: "out = Returned st1" "sim_inv n st1"
    and step: "Some page \<in> set (frames st) \<and> frames st1 = frames st \<and> faults st1 = faults st
               \<or> Some page \<notin> set (frames st)
                 \<and> (\<exists>i < n. frames st1 = (frames st)[i := Some page])
                 \<and> faults st1 = faults st + 1"
    by blast
  from Cons.prems(2) have len: "length (frames st) = n" by (simp add: sim_inv_def)
  have loop: "sim_loop Opt refs (page # rest) index st = sim_loop Opt refs rest (Suc index) st1"
    using out st1(1) by simp
  from step show ?case
  proof (elim disjE conjE exE)
    assume hit: "Some page \<in> set (frames st)" and fr: "frames st1 = frames st"
      and fa: "faults st1 = faults st"
    from Cons.prems(3) fr have "distinct_frames (frames st1)" by simp
    from Cons.IH [OF Cons.prems(1) st1(2) this rest] obtain st' where
      "sim_loop Opt refs rest (Suc index) st1 = Some (Returned st')"
      "faults st' \<le> faults st1 + best n rest (pages_of (frames st1))"
      by blast
    with hit fr fa loop show ?thesis by (simp add: pages_of_def)
  next
    fix i assume miss: "Some page \<notin> set (frames st)"
    from sim_step_opt_miss [OF miss out [unfolded st1(1)]]
    have fr: "frames st1 = (frames st)[findOPT (frames st) refs (index + 1) := Some page]"
      and fa: "faults st1 = faults st + 1"
      by simp_all
    from distinct_frames_update [OF Cons.prems(3) miss] fr
    have "distinct_frames (frames st1)" by simp
    from Cons.IH [OF Cons.prems(1) st1(2) this rest] obtain st' where
      st': "sim_loop Opt refs rest (Suc index) st1 = Some (Returned st')"
      "faults st' \<le> faults st1 + best n rest (pages_of (frames st1))"
      by blast
    from miss have notin: "page \<notin> pages_of (frames st)" by (simp add: pages_of_def)
    from best_miss_obtain [OF finite_pages_of Cons.prems(1) notin, of rest]
    obtain S'' where S'': "S'' \<in> succs n page (pages_of (frames st))"
      and eq: "best n (page # rest) (pages_of (frames st)) = 1 + best n rest S''"
      by blast
    from opt_choice_best [OF Cons.prems(1) len Cons.prems(3) miss S'', of "Suc index" refs]
    have "best n rest (pages_of (frames st1)) \<le> best n rest S''"
      by (simp add: fr rest)
    with st' fa eq loop show ?thesis by simp
  qed
qed

lemma sim_inv_initial: "0 < n \<Longrightarrow> sim_inv n (initial_state n)"
  by (simp add: sim_inv_def initial_state_def)

text \<open>
  Claim C6. For every reference string and every frame count greater than 0, the run of OPT
  returns, and its fault count is at most the fault count of the run of any policy (FIFO,
  LRU, MRU, CLOCK, WSClock) on the same reference string and frame count, whenever that run
  returns; the runs of all policies but WSClock always return.
\<close>

theorem opt_faults_minimal:
  assumes "0 < framesCount"
  shows "\<exists>opt. simulate Opt framesCount refs = Some (Returned opt)
           \<and> (\<forall>algorithm result.
                 simulate algorithm framesCount refs = Some (Returned result) \<longrightarrow>
                 r_faults opt \<le> r_faults result)
           \<and> (\<forall>algorithm. algorithm \<noteq> Wsclock \<longrightarrow>
                 (\<exists>result. simulate algorithm framesCount refs = Some (Returned result)))"
proof -
  let ?init = "initial_state framesCount"
  have inv: "sim_inv framesCount ?init" by (rule sim_inv_initial [OF assms])
  have dist: "distinct_frames (frames ?init)"
    by (simp add: initial_state_def distinct_frames_initial)
  from opt_le_best [OF assms inv dist, of refs 0 refs] obtain so where
    so: "sim_loop Opt refs refs 0 ?init = Some (Returned so)"
    "faults so \<le> faults ?init + best framesCount refs (pages_of (frames ?init))"
    by auto
  let ?opt = "\<lparr>r_timeline = timeline so, r_hits = hits so, r_faults = faults so,
               r_references = length refs\<rparr>"
  from so(1) have "simulate Opt framesCount refs = Some (Returned ?opt)"
    by (simp add: simulate_def)
  moreover have "r_faults ?opt \<le> r_faults result"
    if "simulate algorithm framesCount refs = Some (Returned result)" for algorithm result
  proof -
    from that obtain st' where st': "sim_loop algorithm refs refs 0 ?init = Some (Returned st')"
      "r_faults result = faults st'"
      by (auto simp: simulate_def split: option.splits outcome.splits)
    from any_policy_ge_best [OF assms inv st'(1)] so(2) st'(2) show ?thesis by simp
  qed
  moreover have "\<exists>result. simulate algorithm framesCount refs = Some (Returned result)"
    if "algorithm \<noteq> Wsclock" for algorithm
  proof -
    from sim_loop_returns [OF that inv, of refs refs 0] show ?thesis
      by (auto simp: simulate_def)
  qed
  ultimately show ?thesis by blast
qed

theorem opt_faults_minimal_witness:
  "(0::nat) < 3
   \<and> (\<exists>opt lru. simulate Opt 3 defaultRef = Some (Returned opt)
         \<and> simulate Lru 3 defaultRef = Some (Returned lru)
         \<and> r_faults opt \<le> r_faults lru)"
proof -
  have h: "(0::nat) < 3" by simp
  from opt_faults_minimal [OF h, of defaultRef] obtain opt where
    opt: "simulate Opt 3 defaultRef = Some (Returned opt)"
    and le: "\<forall>algorithm result. simulate algorithm 3 defaultRef = Some (Returned result) \<longrightarrow>
               r_faults opt \<le> r_faults result"
    and ret: "\<forall>algorithm. algorithm \<noteq> Wsclock \<longrightarrow>
                (\<exists>result. simulate algorithm 3 defaultRef = Some (Returned result))"
    by blast
  from ret obtain lru where lru: "simulate Lru 3 defaultRef = Some (Returned lru)" by blast
  with le have "r_faults opt \<le> r_faults lru" by blast
  with h opt lru show ?thesis by blast
qed


section \<open>JavaScript numbers and sorting\<close>

text \<open>
  A JavaScript number is a binary64 value. Every finite binary64 value is an integer multiple
  of \<open>2\<^sup>-\<^sup>1\<^sup>0\<^sup>7\<^sup>4\<close>, the smallest positive one, so \<open>Finite k\<close> stands for \<open>k * 2\<^sup>-\<^sup>1\<^sup>0\<^sup>7\<^sup>4\<close>; the two
  zeros are not told apart, which no comparison of the program does either. The number \<open>1\<close> is
  \<open>Finite (2 ^ 1074)\<close> and \<open>whole k\<close> is the whole number \<open>k\<close>.
\<close>

datatype double = Finite int | PosInf | NegInf | NaN

definition whole :: "int \<Rightarrow> double" where
  "whole k = Finite (k * 2 ^ 1074)"

text \<open>The number of binary digits of \<open>n\<close>: the least \<open>k\<close> with \<open>n < 2 ^ k\<close>, found by doubling.\<close>

function count_bits :: "int \<Rightarrow> nat \<Rightarrow> int \<Rightarrow> nat" where
  "count_bits p k n = (if p \<le> 0 \<or> n < p then k else count_bits (2 * p) (Suc k) n)"
  by pat_completeness auto

termination
  by (relation "measure (\<lambda>(p, k, n). nat (n - p + 1))") auto

declare count_bits.simps [simp del]

definition bit_length :: "int \<Rightarrow> nat" where
  "bit_length n = count_bits 1 0 n"

text \<open>The same count read off the binary numeral, for evaluation.\<close>

fun num_bits :: "num \<Rightarrow> nat" where
  "num_bits num.One = 1"
| "num_bits (num.Bit0 n) = Suc (num_bits n)"
| "num_bits (num.Bit1 n) = Suc (num_bits n)"

lemma count_bits_ge: "k \<le> count_bits p k n"
proof (induction p k n rule: count_bits.induct)
  case (1 p k n)
  show ?case
  proof (cases "p \<le> 0 \<or> n < p")
    case True
    then show ?thesis by (simp add: count_bits.simps)
  next
    case False
    with 1 have "Suc k \<le> count_bits (2 * p) (Suc k) n" by simp
    with False show ?thesis by (simp add: count_bits.simps [of p k n])
  qed
qed

lemma count_bits_le_iff: "0 < p \<Longrightarrow> count_bits p k n \<le> k + m \<longleftrightarrow> n < 2 ^ m * p"
proof (induction m arbitrary: p k)
  case 0
  show ?case
  proof (cases "n < p")
    case True
    with 0 show ?thesis by (simp add: count_bits.simps)
  next
    case False
    with 0 have "count_bits p k n = count_bits (2 * p) (Suc k) n"
      by (simp add: count_bits.simps [of p k n])
    with count_bits_ge [of "Suc k" "2 * p" n] False show ?thesis by simp
  qed
next
  case (Suc m)
  show ?case
  proof (cases "n < p")
    case True
    moreover have "(1::int) \<le> 2 ^ Suc m" by (rule one_le_power) simp
    with Suc.prems have "1 * p \<le> 2 ^ Suc m * p" by (intro mult_right_mono) simp_all
    then have "p \<le> 2 ^ Suc m * p" by simp
    ultimately have "n < 2 ^ Suc m * p" by linarith
    with True Suc.prems show ?thesis by (simp add: count_bits.simps [of p k n])
  next
    case False
    with Suc.prems have "count_bits p k n = count_bits (2 * p) (Suc k) n"
      by (simp add: count_bits.simps [of p k n])
    moreover from Suc.prems have "0 < 2 * p" by simp
    from Suc.IH [OF this, of "Suc k"]
    have "count_bits (2 * p) (Suc k) n \<le> Suc k + m \<longleftrightarrow> n < 2 ^ m * (2 * p)" .
    ultimately show ?thesis by (simp add: mult_ac)
  qed
qed

lemma bit_length_le_iff: "bit_length n \<le> m \<longleftrightarrow> n < 2 ^ m"
  using count_bits_le_iff [of 1 0 n m] by (simp add: bit_length_def)

lemma bit_length_eqI:
  assumes "2 ^ k \<le> n" and "n < 2 ^ Suc k"
  shows "bit_length n = Suc k"
proof -
  from assms(2) have "bit_length n \<le> Suc k" by (simp only: bit_length_le_iff)
  moreover from assms(1) have "\<not> bit_length n \<le> k" by (simp only: bit_length_le_iff)
  ultimately show ?thesis by simp
qed

lemma num_bits_pos: "0 < num_bits n"
  by (cases n) simp_all

lemma num_bits_bounds:
  "(2::int) ^ (num_bits n - 1) \<le> numeral n \<and> (numeral n :: int) < 2 ^ num_bits n"
proof (induction n)
  case One
  show ?case by simp
next
  case (Bit0 n)
  define x :: int where "x = numeral n"
  from Bit0 have lo: "2 ^ (num_bits n - 1) \<le> x" and hi: "x < 2 ^ num_bits n"
    unfolding x_def by blast+
  from num_bits_pos [of n] obtain j where j: "num_bits n = Suc j" by (cases "num_bits n") simp_all
  have eq: "(numeral (num.Bit0 n) :: int) = x + x" unfolding x_def by (rule numeral_Bit0)
  from lo j have "2 ^ Suc j \<le> x + x" by simp
  moreover from hi j have "x + x < 2 ^ Suc (Suc j)" by simp
  ultimately show ?case unfolding eq by (simp add: j)
next
  case (Bit1 n)
  define x :: int where "x = numeral n"
  from Bit1 have lo: "2 ^ (num_bits n - 1) \<le> x" and hi: "x < 2 ^ num_bits n"
    unfolding x_def by blast+
  from num_bits_pos [of n] obtain j where j: "num_bits n = Suc j" by (cases "num_bits n") simp_all
  have eq: "(numeral (num.Bit1 n) :: int) = x + x + 1" unfolding x_def by (rule numeral_Bit1)
  from lo j have "2 ^ Suc j \<le> x + x + 1" by simp
  moreover from hi j have "x + x + 1 < 2 ^ Suc (Suc j)" by simp
  ultimately show ?case unfolding eq by (simp add: j)
qed

lemma bit_length_code [code]:
  "bit_length 0 = 0"
  "bit_length (Int.Pos n) = num_bits n"
  "bit_length (Int.Neg n) = 0"
proof -
  show "bit_length 0 = 0" by (simp add: bit_length_def count_bits.simps)
  show "bit_length (Int.Neg n) = 0" by (simp add: bit_length_def count_bits.simps Int.Neg_def)
  from num_bits_pos [of n] obtain k where k: "num_bits n = Suc k"
    by (cases "num_bits n") simp_all
  with num_bits_bounds [of n] have "bit_length (numeral n) = Suc k"
    by (intro bit_length_eqI) simp_all
  with k show "bit_length (Int.Pos n) = num_bits n" by (simp add: Int.Pos_def)
qed

text \<open>
  \<open>round_to e x\<close> is the multiple of \<open>2 ^ e\<close> nearest to \<open>x\<close>, the even multiple on a tie.
  A magnitude of 53 digits or fewer is a binary64 value as it stands (the subnormal numbers
  and the first binade); a longer one keeps its leading 53 digits, rounded to nearest, ties
  to even.
\<close>

definition round_to :: "nat \<Rightarrow> int \<Rightarrow> int" where
  "round_to e x =
     (let q = x div 2 ^ e; r = x mod 2 ^ e
      in if 2 * r < 2 ^ e \<or> (2 * r = 2 ^ e \<and> even q) then q * 2 ^ e else (q + 1) * 2 ^ e)"

definition round_magnitude :: "int \<Rightarrow> int" where
  "round_magnitude x = round_to (bit_length x - 53) x"

text \<open>
  The binary64 result of an exact value \<open>x\<close> (in units of \<open>2\<^sup>-\<^sup>1\<^sup>0\<^sup>7\<^sup>4\<close>): rounded, and infinite when
  the rounded magnitude reaches \<open>2\<^sup>1\<^sup>0\<^sup>2\<^sup>4\<close>.
\<close>

definition to_double :: "int \<Rightarrow> double" where
  "to_double x =
     (let m = round_magnitude \<bar>x\<bar>
      in if m \<ge> 2 ^ 2098 then (if x < 0 then NegInf else PosInf)
         else Finite (sgn x * m))"

fun dneg :: "double \<Rightarrow> double" where
  "dneg (Finite a) = Finite (- a)"
| "dneg PosInf = NegInf"
| "dneg NegInf = PosInf"
| "dneg NaN = NaN"

text \<open>\<open>a + b\<close> and \<open>a - b\<close> of JavaScript.\<close>

fun dadd :: "double \<Rightarrow> double \<Rightarrow> double" where
  "dadd (Finite a) (Finite b) = to_double (a + b)"
| "dadd NaN _ = NaN"
| "dadd _ NaN = NaN"
| "dadd PosInf NegInf = NaN"
| "dadd NegInf PosInf = NaN"
| "dadd PosInf _ = PosInf"
| "dadd _ PosInf = PosInf"
| "dadd NegInf _ = NegInf"
| "dadd _ NegInf = NegInf"

definition dsub :: "double \<Rightarrow> double \<Rightarrow> double" where
  "dsub a b = dadd a (dneg b)"

text \<open>\<open>a < b\<close> and \<open>a <= b\<close> of JavaScript; both are false when an operand is \<open>NaN\<close>.\<close>

fun dless :: "double \<Rightarrow> double \<Rightarrow> bool" where
  "dless NaN _ = False"
| "dless _ NaN = False"
| "dless (Finite a) (Finite b) = (a < b)"
| "dless PosInf _ = False"
| "dless _ PosInf = True"
| "dless _ NegInf = False"
| "dless NegInf _ = True"

definition dle :: "double \<Rightarrow> double \<Rightarrow> bool" where
  "dle a b \<longleftrightarrow> dless a b \<or> (a = b \<and> a \<noteq> NaN)"

fun isFinite :: "double \<Rightarrow> bool" where
  "isFinite (Finite a) = True"
| "isFinite _ = False"

text \<open>
  What \<open>sort\<close> makes of the number its comparator returns: negative, zero or positive, and
  zero for \<open>NaN\<close>.
\<close>

fun dsign :: "double \<Rightarrow> int" where
  "dsign (Finite a) = sgn a"
| "dsign PosInf = 1"
| "dsign NegInf = - 1"
| "dsign NaN = 0"

text \<open>
  \<open>xs.sort(cmp)\<close>: a stable sort, written as insertion from the right; an element goes
  before the first one it does not exceed.
\<close>

fun insort_cmp :: "('a \<Rightarrow> 'a \<Rightarrow> int) \<Rightarrow> 'a \<Rightarrow> 'a list \<Rightarrow> 'a list" where
  "insort_cmp cmp x [] = [x]"
| "insort_cmp cmp x (y # ys) = (if cmp x y \<le> 0 then x # y # ys else y # insort_cmp cmp x ys)"

definition sort_cmp :: "('a \<Rightarrow> 'a \<Rightarrow> int) \<Rightarrow> 'a list \<Rightarrow> 'a list" where
  "sort_cmp cmp xs = foldr (insort_cmp cmp) xs []"

lemma set_insort_cmp: "set (insort_cmp cmp x ys) = insert x (set ys)"
  by (induction ys) auto

lemma set_sort_cmp: "set (sort_cmp cmp xs) = set xs"
  by (induction xs) (simp_all add: sort_cmp_def set_insort_cmp)


section \<open>Fit allocation (FitAlgorithm.js)\<close>

text \<open>
  A block of the memory list. \<open>b_label\<close> is \<open>None\<close> for the label \<open>'Free'\<close> and \<open>Some k\<close>
  for \<open>'Pk'\<close>. Sizes are JavaScript numbers: the request size is \<open>Number(requestSize)\<close>, of
  which \<open>allocate\<close> only asks that it be finite and positive. Block ids are the readings of
  \<open>Date.now()\<close>, which the model takes as inputs of \<open>allocate\<close>.
\<close>

record block =
  b_id :: nat
  b_label :: "nat option"
  b_size :: double
  b_free :: bool
  b_requested :: double

datatype fit_algorithm = FirstFit | BestFit | WorstFit | NextFit

record fit_state =
  blocks :: "block list"
  selectedAlgorithm :: fit_algorithm
  nextFitStart :: nat
  pidCounter :: nat

definition initialBlocks :: "block list" where
  "initialBlocks =
     [\<lparr>b_id = 1, b_label = None, b_size = whole 200, b_free = True, b_requested = whole 0\<rparr>]"

definition initial_fit :: fit_state where
  "initial_fit = \<lparr>blocks = initialBlocks, selectedAlgorithm = FirstFit, nextFitStart = 0,
                   pidCounter = 1\<rparr>"

text \<open>The \<open>for\<close> loop of \<open>coalesce\<close>: \<open>merged\<close> grows at its end.\<close>

fun coalesce_loop :: "block list \<Rightarrow> block list \<Rightarrow> block list" where
  "coalesce_loop [] merged = merged"
| "coalesce_loop (current # rest) merged =
     (if b_free current \<and> merged \<noteq> [] \<and> b_free (last merged)
      then coalesce_loop rest
             (butlast merged
              @ [(last merged)\<lparr>b_size := dadd (b_size (last merged)) (b_size current)\<rparr>])
      else coalesce_loop rest (merged @ [current]))"

text \<open>The final \<open>map\<close> of \<open>coalesce\<close> gives the id \<open>idx + 1\<close> to a block whose id is \<open>0\<close>.\<close>

definition coalesce :: "block list \<Rightarrow> block list" where
  "coalesce list =
     map (\<lambda>(idx, blk). blk\<lparr>b_id := (if b_id blk = 0 then idx + 1 else b_id blk)\<rparr>)
       (enumerate 0 (coalesce_loop list []))"

text \<open>\<open>xs.findIndex(P)\<close> and \<open>xs.find(P)\<close> over indices, with \<open>None\<close> for \<open>-1\<close>.\<close>

fun findIndex :: "('a \<Rightarrow> bool) \<Rightarrow> 'a list \<Rightarrow> nat option" where
  "findIndex P [] = None"
| "findIndex P (x # xs) = (if P x then Some 0 else map_option Suc (findIndex P xs))"

text \<open>The test \<open>blocks[i].free && blocks[i].size >= size\<close>.\<close>

definition fits :: "block list \<Rightarrow> double \<Rightarrow> nat \<Rightarrow> bool" where
  "fits bs sz i \<longleftrightarrow> b_free (bs ! i) \<and> dle sz (b_size (bs ! i))"

text \<open>The \<open>for (offset ...)\<close> loop of the Next Fit branch; \<open>k\<close> rounds are left.\<close>

fun next_scan :: "block list \<Rightarrow> double \<Rightarrow> nat \<Rightarrow> nat \<Rightarrow> nat \<Rightarrow> nat option" where
  "next_scan bs sz start offset 0 = None"
| "next_scan bs sz start offset (Suc k) =
     (let idx = (start + offset) mod length bs
      in if fits bs sz idx then Some idx else next_scan bs sz start (Suc offset) k)"

text \<open>
  \<open>findBlockIndex\<close>. Best Fit sorts the fitting indices with the comparator
  \<open>blocks[a].size - blocks[b].size\<close>, Worst Fit with \<open>blocks[b].size - blocks[a].size\<close>.
\<close>

definition findBlockIndex :: "fit_state \<Rightarrow> double \<Rightarrow> nat option" where
  "findBlockIndex st sz =
     (let bs = blocks st;
          indices = [0..<length bs]
      in case selectedAlgorithm st of
           BestFit \<Rightarrow>
             (case sort_cmp (\<lambda>a b. dsign (dsub (b_size (bs ! a)) (b_size (bs ! b))))
                     (filter (fits bs sz) indices) of
                [] \<Rightarrow> None | i # _ \<Rightarrow> Some i)
         | WorstFit \<Rightarrow>
             (case sort_cmp (\<lambda>a b. dsign (dsub (b_size (bs ! b)) (b_size (bs ! a))))
                     (filter (fits bs sz) indices) of
                [] \<Rightarrow> None | i # _ \<Rightarrow> Some i)
         | NextFit \<Rightarrow> next_scan bs sz (nextFitStart st) 0 (length bs)
         | FirstFit \<Rightarrow> List.find (fits bs sz) indices)"

text \<open>
  \<open>allocate\<close>, for the request size \<open>sz = Number(requestSize)\<close>; \<open>t1\<close> and \<open>t2\<close> are the two
  readings of \<open>Date.now()\<close>. The two \<open>splice\<close> calls replace the target by the new block and
  put the remainder, if any, right after it.
\<close>

definition allocate :: "double \<Rightarrow> nat \<Rightarrow> nat \<Rightarrow> fit_state \<Rightarrow> fit_state" where
  "allocate sz t1 t2 st =
     (if \<not> isFinite sz \<or> dle sz (whole 0) then st
      else case findBlockIndex st sz of
             None \<Rightarrow> st
           | Some index \<Rightarrow>
               (let target = blocks st ! index;
                    remaining = dsub (b_size target) sz;
                    newBlock = \<lparr>b_id = t1, b_label = Some (pidCounter st), b_size = sz,
                                b_free = False, b_requested = sz\<rparr>;
                    updated = take index (blocks st) @ [newBlock]
                      @ (if dless (whole 0) remaining
                         then [\<lparr>b_id = t2 + 1, b_label = None, b_size = remaining,
                                 b_free = True, b_requested = whole 0\<rparr>]
                         else [])
                      @ drop (Suc index) (blocks st);
                    coalesced = coalesce updated
                in st\<lparr>blocks := coalesced,
                      pidCounter := pidCounter st + 1,
                      nextFitStart :=
                        (if selectedAlgorithm st = NextFit
                         then (case findIndex b_free coalesced of None \<Rightarrow> 0 | Some i \<Rightarrow> i)
                         else nextFitStart st)\<rparr>))"

text \<open>\<open>freeProcess\<close>; \<open>freeTarget\<close> is \<open>None\<close> when no block is selected.\<close>

definition freeProcess :: "nat option \<Rightarrow> fit_state \<Rightarrow> fit_state" where
  "freeProcess freeTarget st =
     (case freeTarget of
        None \<Rightarrow> st
      | Some target \<Rightarrow>
          st\<lparr>blocks := coalesce (map (\<lambda>blk. if b_id blk = target
                                               then blk\<lparr>b_free := True, b_label := None,
                                                        b_requested := whole 0\<rparr>
                                               else blk) (blocks st))\<rparr>)"

definition reset :: "fit_state \<Rightarrow> fit_state" where
  "reset st = initial_fit"

text \<open>The events of the view, and a session as the list of events since the start.\<close>

datatype fit_event =
    SelectAlgorithm fit_algorithm
  | Allocate double nat nat
  | FreeProcess "nat option"
  | Reset

fun fit_apply :: "fit_state \<Rightarrow> fit_event \<Rightarrow> fit_state" where
  "fit_apply st (SelectAlgorithm a) = st\<lparr>selectedAlgorithm := a\<rparr>"
| "fit_apply st (Allocate sz t1 t2) = allocate sz t1 t2 st"
| "fit_apply st (FreeProcess target) = freeProcess target st"
| "fit_apply st Reset = reset st"

definition fit_session :: "fit_event list \<Rightarrow> fit_state" where
  "fit_session events = foldl fit_apply initial_fit events"

text \<open>
  \<open>totalMemory\<close>, as the view computes it: \<open>blocks.reduce((sum, block) => sum + block.size, 0)\<close>.
  \<open>exactTotal\<close> is the sum of the sizes as real numbers, in units of \<open>2\<^sup>-\<^sup>1\<^sup>0\<^sup>7\<^sup>4\<close>.
\<close>

definition totalMemory :: "block list \<Rightarrow> double" where
  "totalMemory bs = foldl (\<lambda>sum blk. dadd sum (b_size blk)) (whole 0) bs"

fun units :: "double \<Rightarrow> int" where
  "units (Finite k) = k"
| "units _ = 0"

definition exactTotal :: "block list \<Rightarrow> int" where
  "exactTotal bs = sum_list (map (\<lambda>blk. units (b_size blk)) bs)"

fun no_adjacent_free :: "block list \<Rightarrow> bool" where
  "no_adjacent_free (x # y # rest) = (\<not> (b_free x \<and> b_free y) \<and> no_adjacent_free (y # rest))"
| "no_adjacent_free _ = True"

text \<open>
  The binary64 values of \<open>1.1\<close> and \<open>1.2\<close>: \<open>4953959590107546 * 2\<^sup>-\<^sup>5\<^sup>2\<close> and
  \<open>5404319552844595 * 2\<^sup>-\<^sup>5\<^sup>2\<close>.
\<close>

definition d1_1 :: double where
  "d1_1 = Finite (4953959590107546 * 2 ^ 1022)"

definition d1_2 :: double where
  "d1_2 = Finite (5404319552844595 * 2 ^ 1022)"

text \<open>A session of two requests, of \<open>1.1\<close> and of \<open>1.2\<close> units.\<close>

definition fractional_session :: "fit_event list" where
  "fractional_session = [Allocate d1_1 1000 1000, Allocate d1_2 2000 2000]"

text \<open>
  A Next Fit session: three allocations of 50, the first block freed, then an allocation
  of 20, which lands in the last hole (index 3 of the list).
\<close>

definition next_fit_session :: "fit_event list" where
  "next_fit_session =
     [SelectAlgorithm NextFit, Allocate (whole 50) 1000 1000, Allocate (whole 50) 2000 2000,
      Allocate (whole 50) 3000 3000, FreeProcess (Some 1000), Allocate (whole 20) 4000 4000]"

subsection \<open>No two neighbouring free blocks\<close>

lemma map_size_coalesce_ids:
  "map b_size (map (\<lambda>(idx, blk). blk\<lparr>b_id := (if b_id blk = 0 then idx + 1 else b_id blk)\<rparr>)
       (enumerate k xs)) = map b_size xs"
  by (induction xs arbitrary: k) auto

lemma map_free_coalesce_ids:
  "map b_free (map (\<lambda>(idx, blk). blk\<lparr>b_id := (if b_id blk = 0 then idx + 1 else b_id blk)\<rparr>)
       (enumerate k xs)) = map b_free xs"
  by (induction xs arbitrary: k) auto

lemma no_adjacent_free_cong:
  "map b_free xs = map b_free ys \<Longrightarrow> no_adjacent_free xs = no_adjacent_free ys"
proof (induction xs arbitrary: ys)
  case Nil
  then show ?case by simp
next
  case (Cons x xs)
  then obtain y ys' where ys: "ys = y # ys'" and hd: "b_free x = b_free y"
    and tl: "map b_free xs = map b_free ys'"
    by auto
  from tl have ih: "no_adjacent_free xs = no_adjacent_free ys'" by (rule Cons.IH)
  show ?case
  proof (cases xs)
    case Nil
    with tl ys show ?thesis by simp
  next
    case (Cons a as)
    with tl obtain b bs where "ys' = b # bs" and "b_free a = b_free b" by auto
    with ys hd ih Cons show ?thesis by simp
  qed
qed

lemma no_adjacent_free_snoc:
  "no_adjacent_free (ms @ [c]) \<longleftrightarrow>
     no_adjacent_free ms \<and> (ms = [] \<or> \<not> (b_free (last ms) \<and> b_free c))"
  by (induction ms rule: no_adjacent_free.induct) auto

lemma no_adjacent_free_coalesce_loop:
  "no_adjacent_free merged \<Longrightarrow> no_adjacent_free (coalesce_loop list merged)"
proof (induction list arbitrary: merged)
  case Nil
  then show ?case by simp
next
  case (Cons current rest)
  show ?case
  proof (cases "b_free current \<and> merged \<noteq> [] \<and> b_free (last merged)")
    case True
    let ?m = "butlast merged
              @ [(last merged)\<lparr>b_size := dadd (b_size (last merged)) (b_size current)\<rparr>]"
    have "map b_free ?m = map b_free (butlast merged @ [last merged])" by simp
    also from True have "\<dots> = map b_free merged"
      using append_butlast_last_id [of merged] by presburger
    finally have "no_adjacent_free ?m = no_adjacent_free merged"
      by (rule no_adjacent_free_cong)
    with Cons.prems have "no_adjacent_free ?m" by simp
    then have "no_adjacent_free (coalesce_loop rest ?m)" by (rule Cons.IH)
    with True show ?thesis by simp
  next
    case False
    with Cons.prems have "no_adjacent_free (merged @ [current])"
      by (auto simp: no_adjacent_free_snoc)
    then have "no_adjacent_free (coalesce_loop rest (merged @ [current]))" by (rule Cons.IH)
    with False show ?thesis by auto
  qed
qed

lemma no_adjacent_free_coalesce: "no_adjacent_free (coalesce list)"
proof -
  have "no_adjacent_free (coalesce_loop list [])"
    by (rule no_adjacent_free_coalesce_loop) simp
  moreover have "map b_free (coalesce list) = map b_free (coalesce_loop list [])"
    by (simp only: coalesce_def map_free_coalesce_ids)
  ultimately show ?thesis using no_adjacent_free_cong by blast
qed

lemma no_adjacent_free_allocate:
  "no_adjacent_free (blocks st) \<Longrightarrow> no_adjacent_free (blocks (allocate sz t1 t2 st))"
  by (simp add: allocate_def Let_def no_adjacent_free_coalesce split: option.splits)

lemma no_adjacent_free_step:
  "no_adjacent_free (blocks st) \<Longrightarrow> no_adjacent_free (blocks (fit_apply st ev))"
proof (cases ev)
  case (SelectAlgorithm a)
  assume "no_adjacent_free (blocks st)"
  with SelectAlgorithm show ?thesis by simp
next
  case (Allocate sz t1 t2)
  assume "no_adjacent_free (blocks st)"
  with Allocate show ?thesis by (simp add: no_adjacent_free_allocate)
next
  case (FreeProcess target)
  assume "no_adjacent_free (blocks st)"
  with FreeProcess show ?thesis
    by (cases target) (simp_all add: freeProcess_def no_adjacent_free_coalesce)
next
  case Reset
  then show ?thesis by (simp add: reset_def initial_fit_def initialBlocks_def)
qed

lemma no_adjacent_free_foldl:
  "no_adjacent_free (blocks st) \<Longrightarrow> no_adjacent_free (blocks (foldl fit_apply st events))"
  by (induction events arbitrary: st) (simp_all add: no_adjacent_free_step)

subsection \<open>Sizes on which the arithmetic is exact\<close>

text \<open>
  A number below 256 that is a multiple of \<open>2\<^sup>-\<^sup>4\<^sup>5\<close> (a multiple of \<open>grid\<close> units, below \<open>cap\<close>) has at most
  53 significant digits, so sums and differences of such numbers that stay below 256 are
  not rounded. Every whole number is a multiple of \<open>2\<^sup>-\<^sup>4\<^sup>5\<close>.
\<close>

definition grid :: int where
  "grid = 2 ^ 1029"

definition cap :: int where
  "cap = 2 ^ 1082"

fun exact_size :: "double \<Rightarrow> bool" where
  "exact_size (Finite k) = (0 < k \<and> grid dvd k)"
| "exact_size _ = False"

text \<open>
  A request is exact when it is a multiple of \<open>2\<^sup>-\<^sup>4\<^sup>5\<close>; a request that is not finite is
  exact as well, since \<open>allocate\<close> turns it down.
\<close>

fun exact_request :: "double \<Rightarrow> bool" where
  "exact_request (Finite k) = (grid dvd k)"
| "exact_request _ = True"

fun exact_event :: "fit_event \<Rightarrow> bool" where
  "exact_event (Allocate sz t1 t2) = exact_request sz"
| "exact_event _ = True"

definition exact_blocks :: "block list \<Rightarrow> bool" where
  "exact_blocks bs \<longleftrightarrow>
     (\<forall>blk \<in> set bs. exact_size (b_size blk)) \<and> exactTotal bs = units (whole 200)"

lemma round_to_exact: "2 ^ e dvd x \<Longrightarrow> round_to e x = x"
  by (simp add: round_to_def Let_def)

lemma to_double_exact:
  assumes "0 \<le> x" and "x < cap" and "grid dvd x"
  shows "to_double x = Finite x"
proof -
  from assms(2) have "bit_length x \<le> 1082" by (simp only: bit_length_le_iff cap_def)
  then have "bit_length x - 53 \<le> 1029" by simp
  then have "(2::int) ^ (bit_length x - 53) dvd 2 ^ 1029" by (rule le_imp_power_dvd)
  moreover from assms(3) have "2 ^ 1029 dvd x" by (simp only: grid_def)
  ultimately have "2 ^ (bit_length x - 53) dvd x" by (rule dvd_trans)
  then have m: "round_magnitude x = x"
    by (simp only: round_magnitude_def round_to_exact)
  have "(2::int) ^ 1082 \<le> 2 ^ 2098" by (rule power_increasing) simp_all
  with assms(2) have "x < 2 ^ 2098" unfolding cap_def by (rule less_le_trans)
  then have "\<not> 2 ^ 2098 \<le> x" by (simp only: not_le)
  moreover from assms(1) have "\<bar>x\<bar> = x" by simp
  moreover from assms(1) have "sgn x * x = x" by (simp add: sgn_if)
  ultimately show ?thesis by (simp only: to_double_def Let_def m if_False)
qed

lemma whole_0: "whole 0 = Finite 0"
  by (simp add: whole_def)

lemma grid_dvd_whole: "grid dvd units (whole k)"
proof -
  have "(2::int) ^ 1029 dvd 2 ^ 1074" by (rule le_imp_power_dvd) simp
  then have "grid dvd k * 2 ^ 1074" unfolding grid_def by (rule dvd_mult)
  then show ?thesis by (simp only: whole_def units.simps)
qed

lemma whole_200_below_cap: "units (whole 200) < cap"
  by (simp add: whole_def cap_def)

lemma whole_200_positive: "0 < units (whole 200)"
  by (simp add: whole_def)

lemma whole_Finite: "whole k = Finite (units (whole k))"
  by (simp only: whole_def units.simps)

lemma exact_size_whole_200: "exact_size (whole 200)"
  by (subst whole_Finite) (simp only: exact_size.simps grid_dvd_whole whole_200_positive simp_thms)

lemma exact_request_whole: "exact_request (whole k)"
  by (subst whole_Finite) (simp only: exact_request.simps grid_dvd_whole)

lemma exact_size_units:
  "exact_size d \<Longrightarrow> d = Finite (units d) \<and> 0 < units d \<and> grid dvd units d"
  by (cases d) simp_all

lemma exactTotal_Nil: "exactTotal [] = 0"
  by (simp add: exactTotal_def)

lemma exactTotal_Cons: "exactTotal (blk # bs) = units (b_size blk) + exactTotal bs"
  by (simp add: exactTotal_def)

lemma exactTotal_append: "exactTotal (xs @ ys) = exactTotal xs + exactTotal ys"
  by (simp add: exactTotal_def)

lemma exactTotal_nonneg: "\<forall>blk \<in> set bs. exact_size (b_size blk) \<Longrightarrow> 0 \<le> exactTotal bs"
proof (induction bs)
  case Nil
  show ?case by (simp add: exactTotal_Nil)
next
  case (Cons blk bs)
  then have "0 \<le> exactTotal bs" by simp
  moreover from Cons.prems have "0 < units (b_size blk)" using exact_size_units by simp
  ultimately show ?case by (simp add: exactTotal_Cons)
qed

lemma exactTotal_dvd: "\<forall>blk \<in> set bs. exact_size (b_size blk) \<Longrightarrow> grid dvd exactTotal bs"
proof (induction bs)
  case Nil
  show ?case by (simp add: exactTotal_Nil)
next
  case (Cons blk bs)
  then have "grid dvd exactTotal bs" by simp
  moreover from Cons.prems have "grid dvd units (b_size blk)" using exact_size_units by simp
  ultimately show ?case by (simp only: exactTotal_Cons dvd_add)
qed

lemma exactTotal_nth_le:
  assumes "\<forall>blk \<in> set bs. exact_size (b_size blk)" and "i < length bs"
  shows "units (b_size (bs ! i)) \<le> exactTotal bs"
proof -
  from assms(2) have split: "bs = take i bs @ (bs ! i) # drop (Suc i) bs"
    by (simp add: id_take_nth_drop)
  have "\<forall>blk \<in> set (take i bs). exact_size (b_size blk)"
    using assms(1) by (meson in_set_takeD)
  then have a: "0 \<le> exactTotal (take i bs)" by (rule exactTotal_nonneg)
  have "\<forall>blk \<in> set (drop (Suc i) bs). exact_size (b_size blk)"
    using assms(1) by (meson in_set_dropD)
  then have b: "0 \<le> exactTotal (drop (Suc i) bs)" by (rule exactTotal_nonneg)
  have "exactTotal bs = exactTotal (take i bs) + (units (b_size (bs ! i))
          + exactTotal (drop (Suc i) bs))"
    by (subst split) (simp only: exactTotal_append exactTotal_Cons)
  with a b show ?thesis by simp
qed

lemma dadd_exact:
  assumes "0 \<le> a" and "0 \<le> b" and "grid dvd a" and "grid dvd b"
    and "a + b < cap"
  shows "dadd (Finite a) (Finite b) = Finite (a + b)"
proof -
  from assms(1,2) have "0 \<le> a + b" by simp
  moreover from assms(3,4) have "grid dvd a + b" by (rule dvd_add)
  ultimately have "to_double (a + b) = Finite (a + b)" using assms(5)
    by (intro to_double_exact)
  then show ?thesis by (simp only: dadd.simps)
qed

lemma dsub_exact:
  assumes "b \<le> a" and "a < cap" and "0 \<le> b" and "grid dvd a" and "grid dvd b"
  shows "dsub (Finite a) (Finite b) = Finite (a - b)"
proof -
  from assms(1) have "0 \<le> a - b" by simp
  moreover from assms(2,3) have "a - b < cap" by simp
  moreover from assms(4,5) have "grid dvd a - b" by (rule dvd_diff)
  ultimately have "to_double (a - b) = Finite (a - b)" by (intro to_double_exact)
  then show ?thesis by (simp add: dsub_def)
qed

lemma coalesce_loop_exact:
  assumes "\<forall>blk \<in> set list. exact_size (b_size blk)"
    and "\<forall>blk \<in> set merged. exact_size (b_size blk)"
    and "exactTotal list + exactTotal merged < cap"
  shows "(\<forall>blk \<in> set (coalesce_loop list merged). exact_size (b_size blk))
         \<and> exactTotal (coalesce_loop list merged) = exactTotal list + exactTotal merged"
  using assms
proof (induction list arbitrary: merged)
  case Nil
  then show ?case by (simp add: exactTotal_Nil)
next
  case (Cons current rest)
  from Cons.prems(1) have cur: "exact_size (b_size current)"
    and rest: "\<forall>blk \<in> set rest. exact_size (b_size blk)" by simp_all
  from exactTotal_nonneg [OF rest] have rest0: "0 \<le> exactTotal rest" .
  define c where "c = units (b_size current)"
  from exact_size_units [OF cur] have c: "b_size current = Finite c" "0 < c" "grid dvd c"
    by (simp_all add: c_def)
  show ?case
  proof (cases "b_free current \<and> merged \<noteq> [] \<and> b_free (last merged)")
    case True
    then have split: "merged = butlast merged @ [last merged]" by simp
    have front: "\<forall>blk \<in> set (butlast merged). exact_size (b_size blk)"
      using Cons.prems(2) by (meson in_set_butlastD)
    from exactTotal_nonneg [OF front] have front0: "0 \<le> exactTotal (butlast merged)" .
    from True Cons.prems(2) have lst: "exact_size (b_size (last merged))" by simp
    define a where "a = units (b_size (last merged))"
    from exact_size_units [OF lst] have a: "b_size (last merged) = Finite a" "0 < a"
      "grid dvd a" by (simp_all add: a_def)
    have tot: "exactTotal merged = exactTotal (butlast merged) + a"
      by (subst split) (simp add: exactTotal_append exactTotal_Cons exactTotal_Nil a_def)
    from Cons.prems(3) rest0 front0 tot have "a + c < cap"
      by (simp add: exactTotal_Cons c_def)
    with a c dadd_exact [of a c]
    have sum: "dadd (b_size (last merged)) (b_size current) = Finite (a + c)"
      by (simp only: order.strict_implies_order)
    let ?m = "butlast merged
              @ [(last merged)\<lparr>b_size := dadd (b_size (last merged)) (b_size current)\<rparr>]"
    from a c have "exact_size (Finite (a + c))" by (simp add: dvd_add)
    with front sum have m_ok: "\<forall>blk \<in> set ?m. exact_size (b_size blk)" by auto
    have m_tot: "exactTotal ?m = exactTotal merged + c"
      by (simp add: exactTotal_append exactTotal_Cons exactTotal_Nil sum tot)
    with Cons.prems(3) have "exactTotal rest + exactTotal ?m < cap"
      by (simp add: exactTotal_Cons c_def)
    from Cons.IH [OF rest m_ok this] m_tot True show ?thesis
      by (simp add: exactTotal_Cons c_def)
  next
    case False
    from cur Cons.prems(2) have m_ok: "\<forall>blk \<in> set (merged @ [current]). exact_size (b_size blk)"
      by auto
    have m_tot: "exactTotal (merged @ [current]) = exactTotal merged + c"
      by (simp add: exactTotal_append exactTotal_Cons exactTotal_Nil c_def)
    with Cons.prems(3) have "exactTotal rest + exactTotal (merged @ [current]) < cap"
      by (simp add: exactTotal_Cons c_def)
    from Cons.IH [OF rest m_ok this] m_tot False show ?thesis
      by (auto simp add: exactTotal_Cons c_def)
  qed
qed

lemma exact_blocks_cong: "map b_size xs = map b_size ys \<Longrightarrow> exact_blocks xs = exact_blocks ys"
proof -
  assume eq: "map b_size xs = map b_size ys"
  have "(\<forall>blk \<in> set zs. exact_size (b_size blk)) \<longleftrightarrow> (\<forall>d \<in> set (map b_size zs). exact_size d)"
    for zs :: "block list" by simp
  moreover have "exactTotal zs = sum_list (map units (map b_size zs))" for zs
    by (simp add: exactTotal_def comp_def)
  ultimately show ?thesis unfolding exact_blocks_def using eq by metis
qed

lemma exact_blocks_coalesce: "exact_blocks bs \<Longrightarrow> exact_blocks (coalesce bs)"
proof -
  assume ok: "exact_blocks bs"
  then have "exactTotal bs + exactTotal [] < cap"
    using whole_200_below_cap by (simp add: exact_blocks_def exactTotal_Nil)
  with ok coalesce_loop_exact [of bs "[]"] have "exact_blocks (coalesce_loop bs [])"
    by (simp add: exact_blocks_def exactTotal_Nil)
  moreover have "map b_size (coalesce bs) = map b_size (coalesce_loop bs [])"
    by (simp only: coalesce_def map_size_coalesce_ids)
  ultimately show ?thesis using exact_blocks_cong by blast
qed

lemma next_scan_Some:
  "next_scan bs sz start offset k = Some idx \<Longrightarrow> fits bs sz idx \<and> (bs \<noteq> [] \<longrightarrow> idx < length bs)"
  by (induction k arbitrary: offset) (auto simp: Let_def split: if_splits)

lemma hd_sort_cmp_filter:
  "sort_cmp cmp (filter P xs) = i # rest \<Longrightarrow> P i \<and> i \<in> set xs"
proof -
  assume "sort_cmp cmp (filter P xs) = i # rest"
  then have "i \<in> set (sort_cmp cmp (filter P xs))" by simp
  then show ?thesis by (simp add: set_sort_cmp)
qed

lemma findBlockIndex_Some:
  assumes "findBlockIndex st sz = Some index"
  shows "index < length (blocks st) \<and> fits (blocks st) sz index"
proof (cases "selectedAlgorithm st")
  case FirstFit
  with assms have "List.find (fits (blocks st) sz) [0..<length (blocks st)] = Some index"
    by (simp add: findBlockIndex_def Let_def)
  then show ?thesis by (auto simp: find_Some_iff)
next
  case BestFit
  with assms obtain cmp rest where
    "sort_cmp cmp (filter (fits (blocks st) sz) [0..<length (blocks st)]) = index # rest"
    by (auto simp: findBlockIndex_def Let_def split: list.splits)
  from hd_sort_cmp_filter [OF this] show ?thesis by simp
next
  case WorstFit
  with assms obtain cmp rest where
    "sort_cmp cmp (filter (fits (blocks st) sz) [0..<length (blocks st)]) = index # rest"
    by (auto simp: findBlockIndex_def Let_def split: list.splits)
  from hd_sort_cmp_filter [OF this] show ?thesis by simp
next
  case NextFit
  with assms have ns: "next_scan (blocks st) sz (nextFitStart st) 0 (length (blocks st)) = Some index"
    by (simp add: findBlockIndex_def Let_def)
  then have "blocks st \<noteq> []" by (cases "blocks st") auto
  with next_scan_Some [OF ns] show ?thesis by simp
qed

lemma exact_blocks_allocate:
  assumes ok: "exact_blocks (blocks st)" and req: "exact_request sz"
  shows "exact_blocks (blocks (allocate sz t1 t2 st))"
proof (cases "\<not> isFinite sz \<or> dle sz (whole 0)")
  case True
  with ok show ?thesis by (simp add: allocate_def)
next
  case valid: False
  then obtain s where sz: "sz = Finite s" by (cases sz) simp_all
  with valid have s_pos: "0 < s" by (auto simp: dle_def whole_0)
  from req sz have s_dvd: "grid dvd s" by simp
  show ?thesis
  proof (cases "findBlockIndex st sz")
    case None
    with ok valid show ?thesis by (simp add: allocate_def)
  next
    case (Some index)
    let ?bs = "blocks st"
    from findBlockIndex_Some [OF Some]
    have lt: "index < length ?bs" and fit: "dle sz (b_size (?bs ! index))"
      by (simp_all add: fits_def)
    from ok have all: "\<forall>blk \<in> set ?bs. exact_size (b_size blk)"
      and tot: "exactTotal ?bs = units (whole 200)" by (simp_all add: exact_blocks_def)
    define t where "t = units (b_size (?bs ! index))"
    from all lt have "exact_size (b_size (?bs ! index))" by simp
    from exact_size_units [OF this] have t: "b_size (?bs ! index) = Finite t" "0 < t"
      "grid dvd t" by (simp_all add: t_def)
    from fit sz t(1) have s_le: "s \<le> t" by (auto simp: dle_def)
    from exactTotal_nth_le [OF all lt] tot whole_200_below_cap have "t < cap"
      by (simp add: t_def)
    with s_le s_pos s_dvd t dsub_exact [of s t]
    have remaining: "dsub (b_size (?bs ! index)) sz = Finite (t - s)"
      by (simp add: sz)
    have positive: "dless (whole 0) (Finite (t - s)) \<longleftrightarrow> s < t" by (simp add: whole_0)
    let ?newBlock = "\<lparr>b_id = t1, b_label = Some (pidCounter st), b_size = sz,
                      b_free = False, b_requested = sz\<rparr>"
    let ?rest = "if dless (whole 0) (Finite (t - s))
                 then [\<lparr>b_id = t2 + 1, b_label = None, b_size = Finite (t - s),
                         b_free = True, b_requested = whole 0\<rparr>]
                 else []"
    let ?updated = "take index ?bs @ [?newBlock] @ ?rest @ drop (Suc index) ?bs"
    from lt have split: "?bs = take index ?bs @ (?bs ! index) # drop (Suc index) ?bs"
      by (simp add: id_take_nth_drop)
    have "exactTotal ?bs = exactTotal (take index ?bs) + (t + exactTotal (drop (Suc index) ?bs))"
      by (subst split) (simp only: exactTotal_append exactTotal_Cons t_def)
    moreover have "exactTotal ?rest = t - s"
      using s_le by (auto simp: positive exactTotal_Cons exactTotal_Nil)
    ultimately have u_tot: "exactTotal ?updated = exactTotal ?bs"
      by (simp add: exactTotal_append exactTotal_Cons exactTotal_Nil sz)
    have "\<forall>blk \<in> set (take index ?bs). exact_size (b_size blk)"
      using all by (meson in_set_takeD)
    moreover have "\<forall>blk \<in> set (drop (Suc index) ?bs). exact_size (b_size blk)"
      using all by (meson in_set_dropD)
    moreover have "exact_size (b_size ?newBlock)" using s_pos s_dvd by (simp add: sz)
    moreover have "\<forall>blk \<in> set ?rest. exact_size (b_size blk)"
      using s_dvd t(3) by (auto simp: positive dvd_diff)
    ultimately have "\<forall>blk \<in> set ?updated. exact_size (b_size blk)" by auto
    with u_tot tot have "exact_blocks ?updated" by (simp only: exact_blocks_def)
    then have "exact_blocks (coalesce ?updated)" by (rule exact_blocks_coalesce)
    with valid Some remaining show ?thesis
      by (cases "dless (whole 0) (Finite (t - s))") (simp_all add: allocate_def Let_def)
  qed
qed

lemma exact_blocks_step:
  "exact_blocks (blocks st) \<Longrightarrow> exact_event ev \<Longrightarrow> exact_blocks (blocks (fit_apply st ev))"
proof (cases ev)
  case (SelectAlgorithm a)
  assume "exact_blocks (blocks st)"
  with SelectAlgorithm show ?thesis by simp
next
  case (Allocate sz t1 t2)
  assume "exact_blocks (blocks st)" "exact_event ev"
  with Allocate show ?thesis by (simp add: exact_blocks_allocate)
next
  case (FreeProcess target)
  assume ok: "exact_blocks (blocks st)"
  show ?thesis
  proof (cases target)
    case None
    with ok FreeProcess show ?thesis by (simp add: freeProcess_def)
  next
    case (Some tid)
    let ?marked = "map (\<lambda>blk. if b_id blk = tid
                               then blk\<lparr>b_free := True, b_label := None, b_requested := whole 0\<rparr>
                               else blk) (blocks st)"
    have "map b_size ?marked = map b_size (blocks st)" by (induction "blocks st") auto
    with ok exact_blocks_cong have "exact_blocks ?marked" by blast
    then have "exact_blocks (coalesce ?marked)" by (rule exact_blocks_coalesce)
    with FreeProcess Some show ?thesis by (simp add: freeProcess_def)
  qed
next
  case Reset
  then show ?thesis
    by (simp add: reset_def initial_fit_def initialBlocks_def exact_blocks_def exactTotal_def
        exact_size_whole_200)
qed

lemma exact_blocks_foldl:
  "exact_blocks (blocks st) \<Longrightarrow> \<forall>ev \<in> set events. exact_event ev \<Longrightarrow>
   exact_blocks (blocks (foldl fit_apply st events))"
  by (induction events arbitrary: st) (simp_all add: exact_blocks_step)

lemma exact_blocks_initial: "exact_blocks (blocks initial_fit)"
  by (simp add: initial_fit_def initialBlocks_def exact_blocks_def exactTotal_def
      exact_size_whole_200)

lemma totalMemory_exact_loop:
  "\<forall>blk \<in> set bs. exact_size (b_size blk) \<Longrightarrow> 0 \<le> a \<Longrightarrow> grid dvd a \<Longrightarrow>
   a + exactTotal bs < cap \<Longrightarrow>
   foldl (\<lambda>sum blk. dadd sum (b_size blk)) (Finite a) bs = Finite (a + exactTotal bs)"
proof (induction bs arbitrary: a)
  case Nil
  show ?case by (simp add: exactTotal_Nil)
next
  case (Cons blk bs)
  from Cons.prems(1) have cur: "exact_size (b_size blk)"
    and rest: "\<forall>blk \<in> set bs. exact_size (b_size blk)" by simp_all
  define c where "c = units (b_size blk)"
  from exact_size_units [OF cur] have c: "b_size blk = Finite c" "0 < c" "grid dvd c"
    by (simp_all add: c_def)
  from exactTotal_nonneg [OF rest] Cons.prems(4) have "a + c < cap"
    by (simp add: exactTotal_Cons c_def)
  with Cons.prems(2,3) c dadd_exact [of a c]
  have sum: "dadd (Finite a) (b_size blk) = Finite (a + c)"
    by (simp only: order.strict_implies_order)
  from Cons.prems(2) c(2) have "0 \<le> a + c" by simp
  moreover from Cons.prems(3) c(3) have "grid dvd a + c" by (rule dvd_add)
  moreover from Cons.prems(4) have "a + c + exactTotal bs < cap"
    by (simp add: exactTotal_Cons c_def)
  ultimately have "foldl (\<lambda>sum blk. dadd sum (b_size blk)) (Finite (a + c)) bs
                     = Finite (a + c + exactTotal bs)"
    using rest by (intro Cons.IH)
  with sum show ?case by (simp add: exactTotal_Cons c_def)
qed

lemma totalMemory_exact: "exact_blocks bs \<Longrightarrow> totalMemory bs = whole 200"
proof -
  assume ok: "exact_blocks bs"
  then have "foldl (\<lambda>sum blk. dadd sum (b_size blk)) (Finite 0) bs = Finite (0 + exactTotal bs)"
    using whole_200_below_cap by (intro totalMemory_exact_loop) (simp_all add: exact_blocks_def)
  with ok have "totalMemory bs = Finite (units (whole 200))"
    by (simp add: totalMemory_def whole_0 exact_blocks_def)
  then show ?thesis by (simp only: whole_Finite [symmetric])
qed

text \<open>
  \<open>d1_1\<close> and \<open>d1_2\<close> are what \<open>Number\<close> makes of \<open>1.1\<close> and \<open>1.2\<close>: they lie within less than half
  a unit in the last place (\<open>2 ^ 1022\<close>, for numbers between 1 and 2) of \<open>11/10\<close> and \<open>12/10\<close>.
\<close>

lemma decimal_literals_nearest:
  "\<bar>10 * units d1_1 - 11 * units (whole 1)\<bar> < 5 * 2 ^ 1022
   \<and> \<bar>10 * units d1_2 - 12 * units (whole 1)\<bar> < 5 * 2 ^ 1022"
  by (simp add: d1_1_def d1_2_def whole_def)

text \<open>
  Claim C5 (evaluated where it fails). Two requests, of \<open>1.1\<close> and of \<open>1.2\<close> units, leave the
  blocks \<open>1.1\<close>, \<open>1.2\<close> and \<open>197.70000000000002\<close>: the total the view computes is
  \<open>200.00000000000003\<close> and the sizes add up to \<open>200 + 77 * 2\<^sup>-\<^sup>5\<^sup>2\<close>, not to 200.
\<close>

theorem fit_fractional_requests_change_total:
  "map b_size (blocks (fit_session fractional_session))
     = [d1_1, d1_2, Finite (6955950361962087 * grid)]
   \<and> totalMemory (blocks (fit_session fractional_session)) = Finite (7036874417766401 * grid)
   \<and> totalMemory (blocks (fit_session fractional_session)) \<noteq> whole 200
   \<and> exactTotal (blocks (fit_session fractional_session)) = units (whole 200) + 77 * 2 ^ 1022"
  by code_simp

text \<open>
  Claim C5 (amended). After every sequence of events of the Fit engine (choosing an
  algorithm, allocating under First, Best, Worst or Next Fit, freeing, resetting), started
  from the single free block of 200 units, no two neighbouring blocks of the list are both
  free. When every request size is a whole number, or more generally a multiple of \<open>2\<^sup>-\<^sup>4\<^sup>5\<close>,
  every block size is finite, the total the view computes is 200 and the sizes add up to
  exactly 200.
\<close>

theorem fit_no_adjacent_free_and_exact_total:
  "no_adjacent_free (blocks (fit_session events))
   \<and> ((\<forall>ev \<in> set events. exact_event ev) \<longrightarrow>
        totalMemory (blocks (fit_session events)) = whole 200
        \<and> (\<forall>blk \<in> set (blocks (fit_session events)). isFinite (b_size blk))
        \<and> exactTotal (blocks (fit_session events)) = units (whole 200))"
proof (intro conjI impI)
  show "no_adjacent_free (blocks (fit_session events))"
    unfolding fit_session_def
    by (rule no_adjacent_free_foldl) (simp add: initial_fit_def initialBlocks_def)
next
  assume "\<forall>ev \<in> set events. exact_event ev"
  with exact_blocks_foldl [OF exact_blocks_initial]
  have ok: "exact_blocks (blocks (fit_session events))" by (simp add: fit_session_def)
  then show "totalMemory (blocks (fit_session events)) = whole 200" by (rule totalMemory_exact)
  from ok show "exactTotal (blocks (fit_session events)) = units (whole 200)"
    by (simp add: exact_blocks_def)
  show "\<forall>blk \<in> set (blocks (fit_session events)). isFinite (b_size blk)"
  proof
    fix blk assume "blk \<in> set (blocks (fit_session events))"
    with ok have "exact_size (b_size blk)" by (simp add: exact_blocks_def)
    then show "isFinite (b_size blk)" by (cases "b_size blk") simp_all
  qed
qed

theorem fit_no_adjacent_free_and_exact_total_witness:
  "no_adjacent_free (blocks (fit_session next_fit_session))
   \<and> list_all exact_event next_fit_session
   \<and> totalMemory (blocks (fit_session next_fit_session)) = whole 200
   \<and> list_all (\<lambda>blk. isFinite (b_size blk)) (blocks (fit_session next_fit_session))
   \<and> exactTotal (blocks (fit_session next_fit_session)) = units (whole 200)"
proof -
  have "\<forall>ev \<in> set next_fit_session. exact_event ev"
    by (simp add: next_fit_session_def exact_request_whole)
  with fit_no_adjacent_free_and_exact_total [of next_fit_session] show ?thesis
    by (simp only: list_all_iff) blast
qed

text \<open>
  Claim C9 (evaluated where it fails). After that session the block just allocated, P4,
  sits at index 3 and the position after it is the hole at index 4, but the stored resume
  index is 0, the first free block of the whole list; the next request, of 10 units, is
  therefore placed in the hole at the front and not after P4.
\<close>

theorem next_fit_resume_index_is_first_hole:
  "map b_label (blocks (fit_session next_fit_session)) = [None, Some 2, Some 3, Some 4, None]
   \<and> nextFitStart (fit_session next_fit_session) = 0
   \<and> map b_label (blocks (fit_session (next_fit_session @ [Allocate (whole 10) 5000 5000])))
       = [Some 5, None, Some 2, Some 3, Some 4, None]"
  by code_simp


section \<open>Banker's algorithm (BanksAlgorithm.js)\<close>

text \<open>
  Resource amounts are integers. The view keeps \<open>Max\<close>, \<open>Allocation\<close> and the request at
  the shape of the sample data (every row and the request as long as \<open>Available\<close>);
  \<open>bank_shape\<close> states this, and the vector operations below are those of the source for
  vectors of equal length.
\<close>

record bank_state =
  maxMatrix :: "int list list"
  allocation :: "int list list"
  available :: "int list"

record bank_request =
  rq_process :: int
  rq_resources :: "int list"

definition bank_shape :: "bank_state \<Rightarrow> bank_request \<Rightarrow> bool" where
  "bank_shape st rq \<longleftrightarrow>
     length (maxMatrix st) = length (allocation st)
     \<and> list_all (\<lambda>row. length row = length (available st)) (maxMatrix st)
     \<and> list_all (\<lambda>row. length row = length (available st)) (allocation st)
     \<and> length (rq_resources rq) = length (available st)"

definition sampleState :: bank_state where
  "sampleState =
     \<lparr>maxMatrix = [[7, 5, 3], [3, 2, 2], [9, 0, 2], [2, 2, 2], [4, 3, 3]],
      allocation = [[0, 1, 0], [2, 0, 0], [3, 0, 2], [2, 1, 1], [0, 0, 2]],
      available = [3, 3, 2]\<rparr>"

text \<open>
  \<open>xs.every((x, i) => x <= ys[i])\<close>: a comparison with the \<open>undefined\<close> read past the end
  of \<open>ys\<close> is false.
\<close>

fun every_le :: "int list \<Rightarrow> int list \<Rightarrow> bool" where
  "every_le [] ys = True"
| "every_le (x # xs) [] = False"
| "every_le (x # xs) (y # ys) = (x \<le> y \<and> every_le xs ys)"

definition vec_add :: "int list \<Rightarrow> int list \<Rightarrow> int list" where
  "vec_add xs ys = map (\<lambda>(x, y). x + y) (zip xs ys)"

definition vec_sub :: "int list \<Rightarrow> int list \<Rightarrow> int list" where
  "vec_sub xs ys = map (\<lambda>(x, y). x - y) (zip xs ys)"

text \<open>The derived matrix \<open>need\<close>: \<open>Math.max(value - allocation[i][j], 0)\<close>.\<close>

definition need :: "bank_state \<Rightarrow> int list list" where
  "need st = map (\<lambda>(row, arow). map (\<lambda>(v, a). max (v - a) 0) (zip row arow))
               (zip (maxMatrix st) (allocation st))"

record safety =
  safe :: bool
  sequence :: "nat list"

text \<open>
  One execution of the \<open>for\<close> loop inside \<open>checkSafety\<close>, over the process indices still to
  visit. The array \<open>finish\<close> is the function from an index to its flag.
\<close>

fun safety_pass ::
  "int list list \<Rightarrow> int list list \<Rightarrow> nat list
     \<Rightarrow> int list \<times> (nat \<Rightarrow> bool) \<times> nat list \<times> bool
     \<Rightarrow> int list \<times> (nat \<Rightarrow> bool) \<times> nat list \<times> bool" where
  "safety_pass alloc nd [] s = s"
| "safety_pass alloc nd (i # rest) (work, finish, sq, progress) =
     (if finish i then safety_pass alloc nd rest (work, finish, sq, progress)
      else if every_le (nd ! i) work
      then safety_pass alloc nd rest (vec_add work (alloc ! i), finish(i := True), sq @ [i], True)
      else safety_pass alloc nd rest (work, finish, sq, progress))"

definition unfinished :: "nat \<Rightarrow> (nat \<Rightarrow> bool) \<Rightarrow> nat" where
  "unfinished n finish = length (filter (\<lambda>i. \<not> finish i) [0..<n])"

lemma unfinished_mono:
  "(\<And>i. finish i \<Longrightarrow> finish' i) \<Longrightarrow> unfinished n finish' \<le> unfinished n finish"
proof (induction n)
  case 0
  then show ?case by (simp add: unfinished_def)
next
  case (Suc n)
  then have "unfinished n finish' \<le> unfinished n finish" by simp
  with Suc.prems show ?case by (auto simp: unfinished_def)
qed

lemma unfinished_less:
  assumes "\<And>i. finish i \<Longrightarrow> finish' i" and "k < n" and "\<not> finish k" and "finish' k"
  shows "unfinished n finish' < unfinished n finish"
  using assms(2)
proof (induction n)
  case 0
  then show ?case by simp
next
  case (Suc n)
  show ?case
  proof (cases "k = n")
    case True
    have "unfinished n finish' \<le> unfinished n finish"
      by (rule unfinished_mono) (rule assms(1))
    with True assms(3,4) show ?thesis by (simp add: unfinished_def)
  next
    case False
    with Suc have "unfinished n finish' < unfinished n finish" by simp
    with assms(1) show ?thesis by (auto simp: unfinished_def)
  qed
qed

lemma safety_pass_finish:
  "safety_pass alloc nd is (work, finish, sq, progress) = (work', finish', sq', progress') \<Longrightarrow>
   (\<forall>i. finish i \<longrightarrow> finish' i)
   \<and> (progress' \<longrightarrow> progress \<or> (\<exists>k \<in> set is. \<not> finish k \<and> finish' k))"
proof (induction "is" arbitrary: work finish sq progress)
  case Nil
  then show ?case by simp
next
  case (Cons i rest)
  show ?case
  proof (cases "\<not> finish i \<and> every_le (nd ! i) work")
    case True
    with Cons.prems have
      "safety_pass alloc nd rest (vec_add work (alloc ! i), finish(i := True), sq @ [i], True)
         = (work', finish', sq', progress')"
      by simp
    from Cons.IH [OF this] have "\<forall>j. (finish(i := True)) j \<longrightarrow> finish' j" by simp
    with True show ?thesis by auto
  next
    case False
    with Cons.prems have
      "safety_pass alloc nd rest (work, finish, sq, progress) = (work', finish', sq', progress')"
      by (auto split: if_splits)
    from Cons.IH [OF this] show ?thesis by auto
  qed
qed

lemma safety_pass_decreases:
  assumes "safety_pass alloc nd [0..<length alloc] (work, finish, sq, False)
             = (work', finish', sq', True)"
  shows "unfinished (length alloc) finish' < unfinished (length alloc) finish"
proof -
  from safety_pass_finish [OF assms]
  obtain k where "\<forall>i. finish i \<longrightarrow> finish' i" "k < length alloc" "\<not> finish k" "finish' k"
    by auto
  then show ?thesis
    by (intro unfinished_less [of finish finish' k]) auto
qed

text \<open>The \<open>while (progress)\<close> loop of \<open>checkSafety\<close>.\<close>

function safety_loop ::
  "int list list \<Rightarrow> int list list \<Rightarrow> int list \<times> (nat \<Rightarrow> bool) \<times> nat list
     \<Rightarrow> int list \<times> (nat \<Rightarrow> bool) \<times> nat list" where
  "safety_loop alloc nd (work, finish, sq) =
     (case safety_pass alloc nd [0..<length alloc] (work, finish, sq, False) of
        (work', finish', sq', progress) \<Rightarrow>
          if progress then safety_loop alloc nd (work', finish', sq')
          else (work', finish', sq'))"
  by pat_completeness auto
termination
  by (relation "measure (\<lambda>(alloc, nd, work, finish, sq). unfinished (length alloc) finish)")
     (auto dest: safety_pass_decreases [OF sym])

declare safety_loop.simps [simp del]

definition checkSafety :: "int list \<Rightarrow> int list list \<Rightarrow> int list list \<Rightarrow> safety" where
  "checkSafety avail alloc nd =
     (case safety_loop alloc nd (avail, (\<lambda>i. False), []) of
        (work, finish, sq) \<Rightarrow>
          \<lparr>safe = list_all finish [0..<length alloc], sequence = sq\<rparr>)"

text \<open>The messages of \<open>handleSubmitRequest\<close>.\<close>

datatype bank_message =
    InvalidProcess
  | ExceedsNeed
  | ExceedsAvailable
  | UnsafeState
  | Granted "nat list"

text \<open>The tentative \<open>newAvailable\<close>, \<open>newAllocation\<close> and \<open>newNeed\<close> for process \<open>pid\<close>.\<close>

definition map_row :: "nat \<Rightarrow> (int list \<Rightarrow> int list) \<Rightarrow> int list list \<Rightarrow> int list list" where
  "map_row pid f rows = map (\<lambda>(i, row). if i = pid then f row else row) (enumerate 0 rows)"

definition newAvailable :: "bank_state \<Rightarrow> int list \<Rightarrow> int list" where
  "newAvailable st req = vec_sub (available st) req"

definition newAllocation :: "bank_state \<Rightarrow> nat \<Rightarrow> int list \<Rightarrow> int list list" where
  "newAllocation st pid req = map_row pid (\<lambda>row. vec_add row req) (allocation st)"

definition newNeed :: "bank_state \<Rightarrow> nat \<Rightarrow> int list \<Rightarrow> int list list" where
  "newNeed st pid req = map_row pid (\<lambda>row. vec_sub row req) (need st)"

text \<open>
  \<open>handleSubmitRequest\<close>: the message shown and the state afterwards. Only the last branch
  calls \<open>setAvailable\<close> and \<open>setAllocation\<close>.
\<close>

definition handleSubmitRequest :: "bank_state \<Rightarrow> bank_request \<Rightarrow> bank_message \<times> bank_state" where
  "handleSubmitRequest st rq =
     (let req = rq_resources rq
      in if rq_process rq < 0 \<or> rq_process rq \<ge> int (length (allocation st))
         then (InvalidProcess, st)
         else let pid = nat (rq_process rq);
                  needRow = need st ! pid
              in if \<not> every_le req needRow then (ExceedsNeed, st)
                 else if \<not> every_le req (available st) then (ExceedsAvailable, st)
                 else let tentative = checkSafety (newAvailable st req)
                            (newAllocation st pid req) (newNeed st pid req)
                      in if \<not> safe tentative then (UnsafeState, st)
                         else (Granted (sequence tentative),
                               st\<lparr>available := newAvailable st req,
                                  allocation := newAllocation st pid req\<rparr>))"

text \<open>
  Claim C4. For a valid process index, a request that exceeds the process's row of Need is
  rejected whatever Available holds; one within Need that exceeds Available is rejected;
  a request is granted only if \<open>checkSafety\<close> accepts the tentatively updated state; and
  every outcome other than a grant leaves Available and Allocation, and with them the
  derived Need, exactly as they were.
\<close>

theorem banker_request_admission:
  assumes "bank_shape st rq"
    and "0 \<le> rq_process rq" and "rq_process rq < int (length (allocation st))"
  shows "(\<not> every_le (rq_resources rq) (need st ! nat (rq_process rq))
            \<longrightarrow> handleSubmitRequest st rq = (ExceedsNeed, st))
    \<and> (every_le (rq_resources rq) (need st ! nat (rq_process rq))
         \<and> \<not> every_le (rq_resources rq) (available st)
            \<longrightarrow> handleSubmitRequest st rq = (ExceedsAvailable, st))
    \<and> (\<forall>sq. fst (handleSubmitRequest st rq) = Granted sq
            \<longrightarrow> safe (checkSafety (newAvailable st (rq_resources rq))
                        (newAllocation st (nat (rq_process rq)) (rq_resources rq))
                        (newNeed st (nat (rq_process rq)) (rq_resources rq))))
    \<and> ((\<forall>sq. fst (handleSubmitRequest st rq) \<noteq> Granted sq)
            \<longrightarrow> snd (handleSubmitRequest st rq) = st
                \<and> need (snd (handleSubmitRequest st rq)) = need st)"
  using assms(2,3) by (auto simp: handleSubmitRequest_def Let_def)


text \<open>Four requests on the sample data, one for each outcome.\<close>

definition rq_over_need :: bank_request where
  "rq_over_need = \<lparr>rq_process = 0, rq_resources = [8, 0, 0]\<rparr>"

definition rq_over_available :: bank_request where
  "rq_over_available = \<lparr>rq_process = 0, rq_resources = [4, 0, 0]\<rparr>"

definition rq_unsafe :: bank_request where
  "rq_unsafe = \<lparr>rq_process = 4, rq_resources = [3, 3, 0]\<rparr>"

definition rq_granted :: bank_request where
  "rq_granted = \<lparr>rq_process = 1, rq_resources = [1, 0, 2]\<rparr>"

theorem banker_request_admission_witness:
  "bank_shape sampleState rq_over_need
   \<and> handleSubmitRequest sampleState rq_over_need = (ExceedsNeed, sampleState)
   \<and> handleSubmitRequest sampleState rq_over_available = (ExceedsAvailable, sampleState)
   \<and> fst (handleSubmitRequest sampleState rq_unsafe) = UnsafeState
   \<and> snd (handleSubmitRequest sampleState rq_unsafe) = sampleState
   \<and> fst (handleSubmitRequest sampleState rq_granted) = Granted [1, 3, 4, 0, 2]
   \<and> safe (checkSafety (newAvailable sampleState [1, 0, 2]) (newAllocation sampleState 1 [1, 0, 2])
             (newNeed sampleState 1 [1, 0, 2]))"
proof -
  have s1: "bank_shape sampleState rq_over_need" by code_simp
  have p1: "0 \<le> rq_process rq_over_need"
    "rq_process rq_over_need < int (length (allocation sampleState))" by code_simp+
  have a1: "\<not> every_le (rq_resources rq_over_need) (need sampleState ! nat (rq_process rq_over_need))"
    by code_simp
  have s2: "bank_shape sampleState rq_over_available" by code_simp
  have p2: "0 \<le> rq_process rq_over_available"
    "rq_process rq_over_available < int (length (allocation sampleState))" by code_simp+
  have a2: "every_le (rq_resources rq_over_available)
              (need sampleState ! nat (rq_process rq_over_available))
            \<and> \<not> every_le (rq_resources rq_over_available) (available sampleState)"
    by code_simp
  have s3: "bank_shape sampleState rq_unsafe" by code_simp
  have p3: "0 \<le> rq_process rq_unsafe"
    "rq_process rq_unsafe < int (length (allocation sampleState))" by code_simp+
  have a3: "fst (handleSubmitRequest sampleState rq_unsafe) = UnsafeState" by code_simp
  have s4: "bank_shape sampleState rq_granted" by code_simp
  have p4: "0 \<le> rq_process rq_granted"
    "rq_process rq_granted < int (length (allocation sampleState))" by code_simp+
  have a4: "fst (handleSubmitRequest sampleState rq_granted) = Granted [1, 3, 4, 0, 2]"
    by code_simp
  have r4: "rq_resources rq_granted = [1, 0, 2]" "nat (rq_process rq_granted) = 1"
    by (simp_all add: rq_granted_def)
  from banker_request_admission [OF s1 p1] a1
  have c1: "handleSubmitRequest sampleState rq_over_need = (ExceedsNeed, sampleState)" by blast
  from banker_request_admission [OF s2 p2] a2
  have c2: "handleSubmitRequest sampleState rq_over_available = (ExceedsAvailable, sampleState)"
    by blast
  from banker_request_admission [OF s3 p3] a3
  have c3: "snd (handleSubmitRequest sampleState rq_unsafe) = sampleState" by simp
  from banker_request_admission [OF s4 p4] a4
  have c4: "safe (checkSafety (newAvailable sampleState (rq_resources rq_granted))
             (newAllocation sampleState (nat (rq_process rq_granted)) (rq_resources rq_granted))
             (newNeed sampleState (nat (rq_process rq_granted)) (rq_resources rq_granted)))"
    by blast
  from s1 c1 c2 a3 c3 a4 c4 [unfolded r4] show ?thesis by blast
qed


section \<open>CPU scheduling (ProcessScheduling.js)\<close>

text \<open>
  Times are integers. \<open>process_input\<close> is a row of the process table, \<open>prepared\<close> what
  \<open>prepareProcesses\<close> makes of it (\<open>order\<close> is the row's index, a missing priority is 0),
  \<open>proc\<close> the object the preemptive, Round Robin and MLFQ runs mutate (\<open>p_level\<close> is used
  by MLFQ only), and \<open>schedule_entry\<close> an entry of the returned schedule (\<open>e_remaining\<close>
  and \<open>e_level\<close> are \<open>None\<close> where the policy's objects have no such field).
\<close>

record process_input =
  i_name :: string
  i_arrival :: int
  i_burst :: int
  i_priority :: "int option"

record prepared =
  p_name :: string
  p_order :: nat
  p_arrival :: int
  p_burst :: int
  p_priority :: int

record proc = prepared +
  p_remaining :: int
  p_level :: nat
  p_startTime :: "int option"
  p_completionTime :: "int option"

record schedule_entry = prepared +
  e_remaining :: "int option"
  e_level :: "nat option"
  e_startTime :: int
  e_completionTime :: int
  e_waitingTime :: int
  e_turnaroundTime :: int

datatype sched_error = InvalidQuantum | NoLevels | UndefinedRead

definition prepareProcesses :: "process_input list \<Rightarrow> prepared list" where
  "prepareProcesses processes =
     map (\<lambda>(index, process).
            \<lparr>p_name = i_name process, p_order = index, p_arrival = i_arrival process,
             p_burst = i_burst process,
             p_priority = (case i_priority process of Some v \<Rightarrow> v | None \<Rightarrow> 0)\<rparr>)
       (enumerate 0 processes)"

text \<open>The comparators return a number whose sign orders the two arguments.\<close>

definition sortByArrival :: "'a prepared_scheme \<Rightarrow> 'a prepared_scheme \<Rightarrow> int" where
  "sortByArrival a b =
     (if p_arrival a = p_arrival b then int (p_order a) - int (p_order b)
      else p_arrival a - p_arrival b)"

definition compareByBurst :: "'a prepared_scheme \<Rightarrow> 'a prepared_scheme \<Rightarrow> int" where
  "compareByBurst a b =
     (if p_burst a = p_burst b then sortByArrival a b else p_burst a - p_burst b)"

definition compareByPriority :: "'a prepared_scheme \<Rightarrow> 'a prepared_scheme \<Rightarrow> int" where
  "compareByPriority a b =
     (if p_priority a = p_priority b then sortByArrival a b else p_priority a - p_priority b)"

definition compareByRemaining :: "proc \<Rightarrow> proc \<Rightarrow> int" where
  "compareByRemaining a b =
     (if p_remaining a = p_remaining b then sortByArrival a b
      else p_remaining a - p_remaining b)"

text \<open>The comparators are handed to \<open>sort_cmp\<close>, the model of \<open>xs.sort(cmp)\<close>.\<close>

subsection \<open>FCFS\<close>

text \<open>The \<open>sorted.map\<close> of \<open>runFcfs\<close>, with the variable \<open>currentTime\<close> threaded through.\<close>

fun fcfs_map :: "int \<Rightarrow> prepared list \<Rightarrow> schedule_entry list" where
  "fcfs_map currentTime [] = []"
| "fcfs_map currentTime (process # rest) =
     (let startTime = max (p_arrival process) currentTime;
          completionTime = startTime + p_burst process;
          turnaroundTime = completionTime - p_arrival process;
          waitingTime = turnaroundTime - p_burst process
      in prepared.extend process
           \<lparr>e_remaining = None, e_level = None, e_startTime = startTime,
            e_completionTime = completionTime, e_waitingTime = waitingTime,
            e_turnaroundTime = turnaroundTime\<rparr>
         # fcfs_map completionTime rest)"

definition runFcfs :: "process_input list \<Rightarrow> schedule_entry list" where
  "runFcfs processes = fcfs_map 0 (sort_cmp sortByArrival (prepareProcesses processes))"

subsection \<open>Non-preemptive SJF and Priority\<close>

lemma length_insort_cmp: "length (insort_cmp cmp x ys) = Suc (length ys)"
  by (induction ys) auto

lemma length_sort_cmp: "length (sort_cmp cmp xs) = length xs"
  by (induction xs) (simp_all add: sort_cmp_def length_insort_cmp)

lemma hd_sort_cmp_in: "xs \<noteq> [] \<Longrightarrow> hd (sort_cmp cmp xs) \<in> set xs"
proof -
  assume "xs \<noteq> []"
  then have "sort_cmp cmp xs \<noteq> []" using length_sort_cmp [of cmp xs] by auto
  then have "hd (sort_cmp cmp xs) \<in> set (sort_cmp cmp xs)" by simp
  then show ?thesis by (simp add: set_sort_cmp)
qed

text \<open>
  The \<open>while (pending.length)\<close> loop of \<open>runNonPreemptive\<close>. \<open>pending.indexOf\<close> finds the
  chosen object, and \<open>splice\<close> takes it out.
\<close>

function np_loop ::
  "(prepared \<Rightarrow> prepared \<Rightarrow> int) \<Rightarrow> prepared list \<Rightarrow> schedule_entry list \<Rightarrow> int
     \<Rightarrow> schedule_entry list" where
  "np_loop comparator pending schedule time =
     (if pending = [] then schedule
      else let available = filter (\<lambda>process. p_arrival process \<le> time) pending
           in if available = [] then np_loop comparator pending schedule (p_arrival (hd pending))
              else let nextProcess = hd (sort_cmp comparator available);
                       startTime = max time (p_arrival nextProcess);
                       completionTime = startTime + p_burst nextProcess;
                       turnaroundTime = completionTime - p_arrival nextProcess;
                       waitingTime = turnaroundTime - p_burst nextProcess
                   in np_loop comparator (remove1 nextProcess pending)
                        (schedule @
                           [prepared.extend nextProcess
                              \<lparr>e_remaining = None, e_level = None, e_startTime = startTime,
                               e_completionTime = completionTime, e_waitingTime = waitingTime,
                               e_turnaroundTime = turnaroundTime\<rparr>])
                        completionTime)"
  by pat_completeness auto
termination
proof (relation "measure (\<lambda>(comparator, pending, schedule, time).
          2 * length pending
          + (if filter (\<lambda>process. p_arrival process \<le> time) pending = [] then 1 else 0))",
       goal_cases)
  case 1
  show ?case by simp
next
  case (2 comparator pending schedule time available)
  then have "hd pending \<in> set pending" by simp
  then have "filter (\<lambda>process. p_arrival process \<le> p_arrival (hd pending)) pending \<noteq> []"
    by (simp add: filter_empty_conv) blast
  with 2 show ?case by simp
next
  case (3 comparator pending schedule time available nextProcess)
  from 3(3,4) have "nextProcess \<in> set available"
    using hd_sort_cmp_in [of available comparator] by simp
  with 3(2) have "nextProcess \<in> set pending" by simp
  then have "length (remove1 nextProcess pending) < length pending"
    by (simp add: length_remove1) (cases pending, auto)
  then show ?case by (simp split: if_splits)
qed

declare np_loop.simps [simp del]

definition runNonPreemptive ::
  "process_input list \<Rightarrow> (prepared \<Rightarrow> prepared \<Rightarrow> int) \<Rightarrow> schedule_entry list" where
  "runNonPreemptive processes comparator =
     (let pending = sort_cmp sortByArrival (prepareProcesses processes);
          time = (if pending \<noteq> [] then p_arrival (hd pending) else 0)
      in np_loop comparator pending [] time)"

subsection \<open>Preemptive SJF and Priority\<close>

text \<open>
  \<open>ps.reduce((min, p) => Math.min(min, p.arrival), Infinity)\<close>; \<open>None\<close> is \<open>Infinity\<close>.
\<close>

definition min_arrival :: "proc list \<Rightarrow> int option" where
  "min_arrival ps =
     foldl (\<lambda>m process. case m of None \<Rightarrow> Some (p_arrival process)
                               | Some v \<Rightarrow> Some (min v (p_arrival process))) None ps"

definition to_proc :: "prepared \<Rightarrow> proc" where
  "to_proc process =
     prepared.extend process
       \<lparr>p_remaining = p_burst process, p_level = 0, p_startTime = None,
        p_completionTime = None\<rparr>"

definition pending_work :: "proc list \<Rightarrow> nat" where
  "pending_work data = length (filter (\<lambda>process. p_remaining process > 0) data)"

definition future_work :: "int \<Rightarrow> proc list \<Rightarrow> nat" where
  "future_work time data =
     length (filter (\<lambda>process. p_arrival process > time \<and> p_remaining process > 0) data)"

lemma min_arrival_foldl:
  "foldl (\<lambda>m process. case m of None \<Rightarrow> Some (p_arrival process)
                            | Some v \<Rightarrow> Some (min v (p_arrival process))) (Some a) ps = Some b
   \<Longrightarrow> b \<le> a \<and> (\<forall>p \<in> set ps. b \<le> p_arrival p) \<and> (b = a \<or> b \<in> p_arrival ` set ps)"
proof (induction ps arbitrary: a)
  case Nil
  then show ?case by simp
next
  case (Cons p ps)
  from Cons.prems have
    "foldl (\<lambda>m process. case m of None \<Rightarrow> Some (p_arrival process)
                            | Some v \<Rightarrow> Some (min v (p_arrival process)))
       (Some (min a (p_arrival p))) ps = Some b"
    by simp
  from Cons.IH [OF this] show ?case by (auto simp: min_def split: if_splits)
qed

lemma min_arrival_Some:
  "min_arrival ps = Some b \<Longrightarrow> (\<forall>p \<in> set ps. b \<le> p_arrival p) \<and> b \<in> p_arrival ` set ps"
proof (cases ps)
  case Nil
  assume "min_arrival ps = Some b"
  with Nil show ?thesis by (simp add: min_arrival_def)
next
  case (Cons p rest)
  assume "min_arrival ps = Some b"
  with Cons have
    "foldl (\<lambda>m process. case m of None \<Rightarrow> Some (p_arrival process)
                            | Some v \<Rightarrow> Some (min v (p_arrival process)))
       (Some (p_arrival p)) rest = Some b"
    by (simp add: min_arrival_def)
  from min_arrival_foldl [OF this] Cons show ?thesis by auto
qed

lemma min_arrival_foldl_Some:
  "foldl (\<lambda>m process. case m of None \<Rightarrow> Some (p_arrival process)
                            | Some v \<Rightarrow> Some (min v (p_arrival process))) (Some a) ps \<noteq> None"
  by (induction ps arbitrary: a) simp_all

lemma min_arrival_None: "min_arrival ps = None \<Longrightarrow> ps = []"
proof (cases ps)
  case Nil
  then show ?thesis by simp
next
  case (Cons p rest)
  assume "min_arrival ps = None"
  with Cons min_arrival_foldl_Some [of "p_arrival p" rest] show ?thesis
    by (simp add: min_arrival_def)
qed

lemma filter_length_le:
  assumes "\<And>x. x \<in> set xs \<Longrightarrow> Q x \<Longrightarrow> P x"
  shows "length (filter Q xs) \<le> length (filter P xs)"
  using assms by (induction xs) (auto simp: le_SucI)

lemma filter_length_less:
  assumes "\<And>x. x \<in> set xs \<Longrightarrow> Q x \<Longrightarrow> P x" and "x \<in> set xs" and "P x" and "\<not> Q x"
  shows "length (filter Q xs) < length (filter P xs)"
  using assms
proof (induction xs)
  case Nil
  then show ?case by simp
next
  case (Cons y ys)
  have le: "length (filter Q ys) \<le> length (filter P ys)"
    by (rule filter_length_le) (use Cons.prems(1) in auto)
  show ?case
  proof (cases "x = y")
    case True
    with Cons.prems le show ?thesis by simp
  next
    case False
    with Cons.prems have "length (filter Q ys) < length (filter P ys)"
      by (intro Cons.IH) auto
    with Cons.prems(1) [of y] show ?thesis by auto
  qed
qed

lemma filter_update_le:
  "(P y \<Longrightarrow> P (xs ! i)) \<Longrightarrow> length (filter P (xs[i := y])) \<le> length (filter P xs)"
proof (induction xs arbitrary: i)
  case Nil
  then show ?case by simp
next
  case (Cons x xs)
  then show ?case by (cases i) (auto simp: le_SucI)
qed

lemma filter_update_less:
  "i < length xs \<Longrightarrow> P (xs ! i) \<Longrightarrow> \<not> P y \<Longrightarrow>
   length (filter P (xs[i := y])) < length (filter P xs)"
proof (induction xs arbitrary: i)
  case Nil
  then show ?case by simp
next
  case (Cons x xs)
  show ?case
  proof (cases i)
    case 0
    with Cons.prems show ?thesis by simp
  next
    case (Suc j)
    with Cons.prems have "length (filter P (xs[j := y])) < length (filter P xs)"
      by (intro Cons.IH) simp_all
    with Suc show ?thesis by simp
  qed
qed


text \<open>
  The objects that can run at \<open>time\<close>, as indices into \<open>data\<close>, and the part of the loop
  body of \<open>runPreemptive\<close> that runs the chosen one: \<open>current\<close> is an object of \<open>data\<close>; the
  model sorts the indices of the available objects and writes the changed object back to
  its place.
\<close>

definition pre_available :: "proc list \<Rightarrow> int \<Rightarrow> nat list" where
  "pre_available data time =
     filter (\<lambda>i. p_arrival (data ! i) \<le> time \<and> p_remaining (data ! i) > 0) [0..<length data]"

text \<open>\<open>if (current.startTime === null) current.startTime = time\<close>.\<close>

definition mark_started :: "int \<Rightarrow> proc \<Rightarrow> proc" where
  "mark_started time current =
     (if p_startTime current = None then current\<lparr>p_startTime := Some time\<rparr> else current)"

text \<open>The next event: the earlier of the next arrival and the completion of \<open>current\<close>.\<close>

definition pre_next_time :: "proc list \<Rightarrow> int \<Rightarrow> proc \<Rightarrow> int" where
  "pre_next_time data time current =
     (let nextArrival =
            min_arrival (filter (\<lambda>process. p_arrival process > time
                                   \<and> p_remaining process > 0) data);
          finishTime = time + p_remaining current
      in case nextArrival of
           Some a \<Rightarrow> if a < finishTime then a else finishTime
         | None \<Rightarrow> finishTime)"

text \<open>\<open>current\<close> runs until \<open>nextTime\<close> and is marked complete if nothing remains.\<close>

definition pre_advance :: "int \<Rightarrow> int \<Rightarrow> proc \<Rightarrow> proc" where
  "pre_advance time nextTime current =
     (let elapsed = nextTime - time;
          updated = current\<lparr>p_remaining := p_remaining current - elapsed\<rparr>
      in if p_remaining updated = 0 then updated\<lparr>p_completionTime := Some nextTime\<rparr>
         else updated)"

definition pre_run :: "(proc \<Rightarrow> proc \<Rightarrow> int) \<Rightarrow> proc list \<Rightarrow> int \<Rightarrow> proc list \<times> int" where
  "pre_run comparator data time =
     (let cur = hd (sort_cmp (\<lambda>i j. comparator (data ! i) (data ! j)) (pre_available data time));
          current = mark_started time (data ! cur);
          nextTime = pre_next_time data time current
      in (data[cur := pre_advance time nextTime current], nextTime))"

text \<open>The \<open>while\<close> loop of \<open>runPreemptive\<close>.\<close>

function pre_loop :: "(proc \<Rightarrow> proc \<Rightarrow> int) \<Rightarrow> proc list \<Rightarrow> int \<Rightarrow> proc list" where
  "pre_loop comparator data time =
     (if \<not> (\<exists>process \<in> set data. p_remaining process > 0) then data
      else if pre_available data time = []
      then (case min_arrival (filter (\<lambda>process. p_remaining process > 0) data) of
              None \<Rightarrow> data
            | Some nextArrival \<Rightarrow> pre_loop comparator data nextArrival)
      else (case pre_run comparator data time of
              (data', nextTime) \<Rightarrow> pre_loop comparator data' nextTime))"
  by pat_completeness auto

lemma future_work_advance:
  assumes "min_arrival (filter (\<lambda>process. p_arrival process > time \<and> p_remaining process > 0) data)
             = Some a"
  shows "time < a \<and> future_work a data < future_work time data"
proof -
  let ?late = "\<lambda>t process. p_arrival process > t \<and> p_remaining process > (0::int)"
  from min_arrival_Some [OF assms] have "a \<in> p_arrival ` set (filter (?late time) data)" ..
  then obtain p where pin: "p \<in> set (filter (?late time) data)" and pa: "p_arrival p = a"
    by blast
  from pin have p: "p \<in> set data" "?late time p" by simp_all
  from p(2) pa have "time < a" by simp
  have "\<not> ?late a p" using pa by simp
  have "length (filter (?late a) data) < length (filter (?late time) data)"
  proof (rule filter_length_less)
    fix x assume "?late a x"
    with \<open>time < a\<close> show "?late time x" by simp
  next
    show "p \<in> set data" by fact
    show "?late time p" by fact
    show "\<not> ?late a p" by fact
  qed
  with \<open>time < a\<close> show ?thesis by (simp add: future_work_def)
qed

lemma pre_loop_idle_decreases:
  assumes "filter (\<lambda>i. p_arrival (data ! i) \<le> time \<and> p_remaining (data ! i) > 0)
             [0..<length data] = []"
    and "min_arrival (filter (\<lambda>process. p_remaining process > 0) data) = Some a"
  shows "future_work a data < future_work time data"
proof -
  from assms(1) have none:
    "\<forall>i < length data. \<not> (p_arrival (data ! i) \<le> time \<and> p_remaining (data ! i) > 0)"
    by (simp add: filter_empty_conv)
  have late: "p_arrival p > time" if "p \<in> set data" and "p_remaining p > 0" for p
  proof -
    from that(1) obtain i where "i < length data" and "data ! i = p"
      by (auto simp: in_set_conv_nth)
    with none that(2) show ?thesis by auto
  qed
  have "filter (\<lambda>process. p_remaining process > 0) data
      = filter (\<lambda>process. p_arrival process > time \<and> p_remaining process > 0) data"
    by (rule filter_cong [OF refl]) (use late in blast)
  with assms(2) have
    "min_arrival (filter (\<lambda>process. p_arrival process > time \<and> p_remaining process > 0) data)
       = Some a"
    by (simp only:)
  from future_work_advance [OF this] show ?thesis ..
qed

lemma pre_loop_run_decreases:
  assumes cur: "cur < length data" "p_arrival (data ! cur) \<le> time" "p_remaining (data ! cur) > 0"
    and started: "p_arrival started = p_arrival (data ! cur)"
      "p_remaining started = p_remaining (data ! cur)"
    and nextArrival:
      "nextArrival = min_arrival (filter (\<lambda>process. p_arrival process > time
                                            \<and> p_remaining process > 0) data)"
    and nextTime: "nextTime = (case nextArrival of
                                 Some a \<Rightarrow> if a < time + p_remaining started then a
                                           else time + p_remaining started
                               | None \<Rightarrow> time + p_remaining started)"
    and updated: "p_arrival updated = p_arrival started"
      "p_remaining updated = p_remaining started - (nextTime - time)"
    and finished: "p_arrival finished = p_arrival updated" "p_remaining finished = p_remaining updated"
  shows "pending_work (data[cur := finished]) + future_work nextTime (data[cur := finished])
           < pending_work data + future_work time data"
proof -
  let ?fin = "time + p_remaining started"
  have arr: "p_arrival finished \<le> time" using cur started updated finished by simp
  have fin: "time < ?fin" using cur(3) started(2) by simp
  have later: "time < nextTime"
  proof (cases nextArrival)
    case None
    with nextTime fin show ?thesis by simp
  next
    case (Some a)
    with nextArrival future_work_advance [of time data a] have "time < a" by simp
    with Some nextTime fin show ?thesis by simp
  qed
  have fut_upd: "future_work nextTime (data[cur := finished]) \<le> future_work nextTime data"
    unfolding future_work_def using arr later by (intro filter_update_le) auto
  show ?thesis
  proof (cases "nextTime = ?fin")
    case True
    then have "p_remaining finished = 0" using updated finished by simp
    then have "pending_work (data[cur := finished]) < pending_work data"
      unfolding pending_work_def using cur by (intro filter_update_less) auto
    moreover have "future_work nextTime data \<le> future_work time data"
      unfolding future_work_def using later by (intro filter_length_le) auto
    ultimately show ?thesis using fut_upd by simp
  next
    case False
    with nextTime obtain a where a: "nextArrival = Some a" "a < ?fin" "nextTime = a"
      by (auto split: option.splits if_splits)
    with nextArrival future_work_advance [of time data a]
    have "future_work nextTime data < future_work time data" by simp
    moreover have "pending_work (data[cur := finished]) \<le> pending_work data"
      unfolding pending_work_def using cur(3) by (intro filter_update_le) auto
    ultimately show ?thesis using fut_upd by simp
  qed
qed

lemma pre_run_decreases:
  assumes "pre_available data time \<noteq> []" and "pre_run comparator data time = (data', nextTime)"
  shows "pending_work data' + future_work nextTime data'
           < pending_work data + future_work time data"
proof -
  define cur where
    "cur = hd (sort_cmp (\<lambda>i j. comparator (data ! i) (data ! j)) (pre_available data time))"
  define started where "started = mark_started time (data ! cur)"
  define finished where "finished = pre_advance time nextTime started"
  from assms(2) have nextTime: "nextTime = pre_next_time data time started"
    and data': "data' = data[cur := finished]"
    by (auto simp: pre_run_def Let_def cur_def started_def finished_def)
  from assms(1) have "cur \<in> set (pre_available data time)"
    unfolding cur_def by (rule hd_sort_cmp_in)
  then have cur: "cur < length data" "p_arrival (data ! cur) \<le> time"
    "p_remaining (data ! cur) > 0"
    by (auto simp: pre_available_def)
  have st: "p_arrival started = p_arrival (data ! cur)"
    "p_remaining started = p_remaining (data ! cur)"
    by (simp_all add: started_def mark_started_def)
  have nt: "nextTime =
      (case min_arrival (filter (\<lambda>process. p_arrival process > time
                                   \<and> p_remaining process > 0) data) of
         Some a \<Rightarrow> if a < time + p_remaining started then a else time + p_remaining started
       | None \<Rightarrow> time + p_remaining started)"
    unfolding nextTime by (simp add: pre_next_time_def Let_def)
  have fi: "p_arrival finished = p_arrival started"
    "p_remaining finished = p_remaining started - (nextTime - time)"
    by (simp_all add: finished_def pre_advance_def Let_def)
  show ?thesis
    unfolding data'
    by (rule pre_loop_run_decreases [OF cur st refl nt fi refl refl])
qed

termination pre_loop
proof (relation "measure (\<lambda>(comparator, data, time). pending_work data + future_work time data)",
       goal_cases)
  case 1
  show ?case by simp
next
  case (2 comparator data time nextArrival)
  then show ?case
    using pre_loop_idle_decreases [of data time nextArrival] by (simp add: pre_available_def)
next
  case (3 comparator data time data' nextTime)
  then have "pre_run comparator data time = (data', nextTime)" by simp
  from pre_run_decreases [OF 3(2) this] show ?case by simp
qed


declare pre_loop.simps [simp del]

text \<open>
  The final \<open>data.map\<close> of \<open>runPreemptive\<close>; \<open>??\<close> supplies a value for a \<open>null\<close> field.
\<close>

definition pre_entry :: "proc \<Rightarrow> schedule_entry" where
  "pre_entry process =
     (let completionTime = (case p_completionTime process of
                              Some c \<Rightarrow> c
                            | None \<Rightarrow> p_arrival process + max (p_remaining process) 0);
          turnaroundTime = completionTime - p_arrival process;
          waitingTime = turnaroundTime - p_burst process
      in prepared.extend (prepared.truncate process)
           \<lparr>e_remaining = Some (p_remaining process), e_level = None,
            e_startTime = (case p_startTime process of Some t \<Rightarrow> t | None \<Rightarrow> p_arrival process),
            e_completionTime = completionTime, e_waitingTime = waitingTime,
            e_turnaroundTime = turnaroundTime\<rparr>)"

definition runPreemptive ::
  "process_input list \<Rightarrow> (proc \<Rightarrow> proc \<Rightarrow> int) \<Rightarrow> schedule_entry list" where
  "runPreemptive processes comparator =
     (let data = map to_proc (prepareProcesses processes);
          time = (case map p_arrival data of [] \<Rightarrow> 0 | a # rest \<Rightarrow> fold min rest a)
      in map pre_entry (pre_loop comparator data time))"

subsection \<open>Round Robin\<close>

text \<open>
  \<open>pending\<close> and \<open>ready\<close> hold the objects of \<open>data\<close>. An object is in one queue at a time
  or in the variable \<open>current\<close>, and only \<open>current\<close> is mutated; the model keeps the object's
  value in the queue and writes each change of \<open>current\<close> through to \<open>data\<close>, at the index
  \<open>order\<close> that \<open>prepareProcesses\<close> gave it.
\<close>

record rr_state =
  rr_data :: "proc list"
  rr_pending :: "proc list"
  rr_ready :: "proc list"
  rr_time :: int

definition write_back :: "proc \<Rightarrow> proc list \<Rightarrow> proc list" where
  "write_back process data = data[p_order process := process]"

text \<open>\<open>while (pending.length && pending[0].arrival <= time) ready.push(pending.shift())\<close>.\<close>

fun rr_drain :: "int \<Rightarrow> proc list \<Rightarrow> proc list \<Rightarrow> proc list \<times> proc list" where
  "rr_drain time [] ready = ([], ready)"
| "rr_drain time (process # pending) ready =
     (if p_arrival process \<le> time then rr_drain time pending (ready @ [process])
      else (process # pending, ready))"

text \<open>
  One turn of \<open>current\<close>, taken from the head of \<open>ready\<close> (whose tail is \<open>rest\<close>): the slice,
  the arrivals up to its end, then \<open>current\<close> again if it has not finished.
\<close>

definition rr_slice :: "int \<Rightarrow> rr_state \<Rightarrow> proc \<Rightarrow> proc list \<Rightarrow> rr_state" where
  "rr_slice quantum st current rest =
     (let started = mark_started (rr_time st) current;
          runTime = min quantum (p_remaining started);
          updated = started\<lparr>p_remaining := p_remaining started - runTime\<rparr>;
          time = rr_time st + runTime;
          (pending, ready) = rr_drain time (rr_pending st) rest
      in if p_remaining updated > 0
         then \<lparr>rr_data = write_back updated (rr_data st), rr_pending = pending,
               rr_ready = ready @ [updated], rr_time = time\<rparr>
         else \<lparr>rr_data = write_back (updated\<lparr>p_completionTime := Some time\<rparr>) (rr_data st),
               rr_pending = pending, rr_ready = ready, rr_time = time\<rparr>)"

text \<open>
  The \<open>while (ready.length || pending.length)\<close> loop of \<open>runRoundRobin\<close>. Nothing in the loop
  itself bounds it (the caller has checked the quantum), so it is a partial function.
  Reading \<open>pending[0].arrival\<close> with both queues empty would raise a TypeError.
\<close>

partial_function (option) rr_loop :: "int \<Rightarrow> rr_state \<Rightarrow> (sched_error + proc list) option" where
  "rr_loop quantum st =
     (if rr_ready st = [] \<and> rr_pending st = [] then Some (Inr (rr_data st))
      else case rr_drain (rr_time st) (rr_pending st) (rr_ready st) of
             (pending, ready) \<Rightarrow>
               (case ready of
                  [] \<Rightarrow>
                    (case pending of
                       [] \<Rightarrow> Some (Inl UndefinedRead)
                     | process # _ \<Rightarrow>
                         rr_loop quantum
                           (st\<lparr>rr_pending := pending, rr_ready := ready,
                               rr_time := p_arrival process\<rparr>))
                | current # rest \<Rightarrow>
                    rr_loop quantum
                      (rr_slice quantum (st\<lparr>rr_pending := pending, rr_ready := ready\<rparr>)
                         current rest)))"

declare rr_loop.simps [code]

definition rr_entry :: "proc \<Rightarrow> schedule_entry" where
  "rr_entry process =
     (let completionTime = (case p_completionTime process of
                              Some c \<Rightarrow> c
                            | None \<Rightarrow> p_arrival process + p_burst process);
          turnaroundTime = completionTime - p_arrival process;
          waitingTime = turnaroundTime - p_burst process
      in prepared.extend (prepared.truncate process)
           \<lparr>e_remaining = Some (p_remaining process), e_level = None,
            e_startTime = (case p_startTime process of Some t \<Rightarrow> t | None \<Rightarrow> p_arrival process),
            e_completionTime = completionTime, e_waitingTime = waitingTime,
            e_turnaroundTime = turnaroundTime\<rparr>)"

text \<open>
  \<open>runRoundRobin\<close>, for the number \<open>quantum\<close> that \<open>settings.rrQuantum\<close> converts to; a
  quantum that is not positive is rejected with an Error.
\<close>

definition runRoundRobin ::
  "process_input list \<Rightarrow> int \<Rightarrow> (sched_error + schedule_entry list) option" where
  "runRoundRobin processes quantum =
     (if quantum \<le> 0 then Some (Inl InvalidQuantum)
      else let data = map to_proc (prepareProcesses processes);
               pending = sort_cmp sortByArrival data;
               time = (if pending \<noteq> [] then p_arrival (hd pending) else 0)
           in map_option (map_sum id (map rr_entry))
                (rr_loop quantum
                   \<lparr>rr_data = data, rr_pending = pending, rr_ready = [], rr_time = time\<rparr>))"

subsection \<open>MLFQ\<close>

text \<open>
  \<open>quantums\<close> is the list of configured quanta followed by \<open>Infinity\<close> (\<open>None\<close>), and there is
  one queue for each of its entries.
\<close>

record mlfq_state =
  mq_data :: "proc list"
  mq_pending :: "proc list"
  mq_queues :: "proc list list"
  mq_time :: int

text \<open>
  \<open>while (pending.length && pending[0].arrival <= time)\<close>: the arrival gets level 0 and goes
  to the end of \<open>queues[0]\<close>. (It has never run, so the object in \<open>data\<close> has level 0 already.)
\<close>

fun mlfq_drain :: "int \<Rightarrow> proc list \<Rightarrow> proc list list \<Rightarrow> proc list \<times> proc list list" where
  "mlfq_drain time [] queues = ([], queues)"
| "mlfq_drain time (arriving # pending) queues =
     (if p_arrival arriving \<le> time
      then mlfq_drain time pending (queues[0 := queues ! 0 @ [arriving\<lparr>p_level := 0\<rparr>]])
      else (arriving # pending, queues))"

text \<open>
  One turn of \<open>current\<close>, the head of \<open>queues[queueIndex]\<close> (whose tail is \<open>rest\<close>).
  \<open>Math.min(Infinity, r)\<close> is \<open>r\<close>.
\<close>

definition mlfq_slice ::
  "int option list \<Rightarrow> mlfq_state \<Rightarrow> nat \<Rightarrow> proc \<Rightarrow> proc list \<Rightarrow> mlfq_state" where
  "mlfq_slice quantums st queueIndex current rest =
     (let started = mark_started (mq_time st) current;
          runTime = (case quantums ! queueIndex of
                       None \<Rightarrow> p_remaining started
                     | Some quantum \<Rightarrow> min quantum (p_remaining started));
          updated = started\<lparr>p_remaining := p_remaining started - runTime\<rparr>;
          time = mq_time st + runTime;
          (pending, queues) = mlfq_drain time (mq_pending st) ((mq_queues st)[queueIndex := rest])
      in if p_remaining updated > 0
         then let nextLevel = min (queueIndex + 1) (length queues - 1);
                  demoted = updated\<lparr>p_level := nextLevel\<rparr>
              in \<lparr>mq_data = write_back demoted (mq_data st), mq_pending = pending,
                  mq_queues = queues[nextLevel := queues ! nextLevel @ [demoted]],
                  mq_time = time\<rparr>
         else \<lparr>mq_data = write_back (updated\<lparr>p_completionTime := Some time\<rparr>) (mq_data st),
               mq_pending = pending, mq_queues = queues, mq_time = time\<rparr>)"

text \<open>
  The \<open>while (hasWork())\<close> loop of \<open>runMlfq\<close>. When no queue holds a process and \<open>pending\<close> is
  empty, \<open>continue\<close> leads to a test of \<open>hasWork()\<close> that fails, and the loop ends.
\<close>

partial_function (option) mlfq_loop ::
  "int option list \<Rightarrow> mlfq_state \<Rightarrow> (sched_error + proc list) option" where
  "mlfq_loop quantums st =
     (if mq_pending st = [] \<and> list_all (\<lambda>queue. queue = []) (mq_queues st)
      then Some (Inr (mq_data st))
      else case mlfq_drain (mq_time st) (mq_pending st) (mq_queues st) of
             (pending, queues) \<Rightarrow>
               (case findIndex (\<lambda>queue. queue \<noteq> []) queues of
                  None \<Rightarrow>
                    (case pending of
                       [] \<Rightarrow> Some (Inr (mq_data st))
                     | process # _ \<Rightarrow>
                         mlfq_loop quantums
                           (st\<lparr>mq_pending := pending, mq_queues := queues,
                               mq_time := p_arrival process\<rparr>))
                | Some queueIndex \<Rightarrow>
                    (case queues ! queueIndex of
                       [] \<Rightarrow> Some (Inl UndefinedRead)
                     | current # rest \<Rightarrow>
                         mlfq_loop quantums
                           (mlfq_slice quantums (st\<lparr>mq_pending := pending, mq_queues := queues\<rparr>)
                              queueIndex current rest))))"

declare mlfq_loop.simps [code]

definition mlfq_entry :: "proc \<Rightarrow> schedule_entry" where
  "mlfq_entry process =
     (let completionTime = (case p_completionTime process of
                              Some c \<Rightarrow> c
                            | None \<Rightarrow> p_arrival process + p_burst process);
          turnaroundTime = completionTime - p_arrival process;
          waitingTime = turnaroundTime - p_burst process
      in prepared.extend (prepared.truncate process)
           \<lparr>e_remaining = Some (p_remaining process), e_level = Some (p_level process),
            e_startTime = (case p_startTime process of Some t \<Rightarrow> t | None \<Rightarrow> p_arrival process),
            e_completionTime = completionTime, e_waitingTime = waitingTime,
            e_turnaroundTime = turnaroundTime\<rparr>)"

text \<open>
  \<open>parseMlfqLevels\<close> keeps the positive numbers of the comma-separated setting; the model
  starts from the list of numbers.
\<close>

definition parseMlfqLevels :: "int list \<Rightarrow> int list" where
  "parseMlfqLevels numbers = filter (\<lambda>number. number > 0) numbers"

text \<open>\<open>[...levels, Infinity]\<close>.\<close>

definition mlfq_quantums :: "int list \<Rightarrow> int option list" where
  "mlfq_quantums levels = map Some levels @ [None]"

definition runMlfq :: "process_input list \<Rightarrow> int list \<Rightarrow> (sched_error + schedule_entry list) option" where
  "runMlfq processes mlfqLevels =
     (let levels = parseMlfqLevels mlfqLevels
      in if levels = [] then Some (Inl NoLevels)
         else let quantums = mlfq_quantums levels;
                  queues = map (\<lambda>_. []) quantums;
                  data = map to_proc (prepareProcesses processes);
                  pending = sort_cmp sortByArrival data;
                  time = (if pending \<noteq> [] then p_arrival (hd pending) else 0)
              in map_option (map_sum id (map mlfq_entry))
                   (mlfq_loop quantums
                      \<lparr>mq_data = data, mq_pending = pending, mq_queues = queues,
                        mq_time = time\<rparr>))"

text \<open>The process table the view starts with.\<close>

definition initialProcesses :: "process_input list" where
  "initialProcesses =
     [\<lparr>i_name = ''P1'', i_arrival = 0, i_burst = 4, i_priority = Some 2\<rparr>,
      \<lparr>i_name = ''P2'', i_arrival = 1, i_burst = 3, i_priority = Some 1\<rparr>,
      \<lparr>i_name = ''P3'', i_arrival = 2, i_burst = 5, i_priority = Some 3\<rparr>]"

subsection \<open>Properties of the schedules\<close>

text \<open>The two equations that tie an entry's derived times to its completion time.\<close>

definition entry_consistent :: "schedule_entry \<Rightarrow> bool" where
  "entry_consistent e \<longleftrightarrow>
     e_turnaroundTime e = e_completionTime e - p_arrival e
     \<and> e_waitingTime e = e_turnaroundTime e - p_burst e"

lemma fcfs_map_consistent: "list_all entry_consistent (fcfs_map currentTime ps)"
  by (induction ps arbitrary: currentTime)
     (simp_all add: Let_def entry_consistent_def prepared.defs)

lemma np_loop_consistent:
  "list_all entry_consistent schedule \<Longrightarrow>
   list_all entry_consistent (np_loop comparator pending schedule time)"
proof (induction comparator pending schedule time rule: np_loop.induct)
  case (1 comparator pending schedule time)
  show ?case
  proof (cases "pending = []")
    case True
    with 1(3) show ?thesis by (simp add: np_loop.simps)
  next
    case ne: False
    define available where "available = filter (\<lambda>process. p_arrival process \<le> time) pending"
    show ?thesis
    proof (cases "available = []")
      case True
      from 1(1) [OF ne available_def True 1(3)] ne True show ?thesis
        by (subst np_loop.simps) (simp add: available_def)
    next
      case False
      define nextProcess where "nextProcess = hd (sort_cmp comparator available)"
      define startTime where "startTime = max time (p_arrival nextProcess)"
      define completionTime where "completionTime = startTime + p_burst nextProcess"
      define turnaroundTime where "turnaroundTime = completionTime - p_arrival nextProcess"
      define waitingTime where "waitingTime = turnaroundTime - p_burst nextProcess"
      let ?entry = "prepared.extend nextProcess
                      \<lparr>e_remaining = None, e_level = None, e_startTime = startTime,
                       e_completionTime = completionTime, e_waitingTime = waitingTime,
                       e_turnaroundTime = turnaroundTime\<rparr>"
      have "entry_consistent ?entry"
        by (simp add: entry_consistent_def prepared.defs turnaroundTime_def waitingTime_def)
      with 1(3) have "list_all entry_consistent (schedule @ [?entry])" by simp
      from 1(2) [OF ne available_def False nextProcess_def startTime_def completionTime_def
          turnaroundTime_def waitingTime_def this]
      have "list_all entry_consistent
              (np_loop comparator (remove1 nextProcess pending) (schedule @ [?entry])
                 completionTime)" .
      moreover have "np_loop comparator pending schedule time
          = np_loop comparator (remove1 nextProcess pending) (schedule @ [?entry]) completionTime"
        using ne False
        by (subst np_loop.simps)
           (simp add: Let_def available_def nextProcess_def startTime_def completionTime_def
              turnaroundTime_def waitingTime_def)
      ultimately show ?thesis by simp
    qed
  qed
qed

lemma pre_entry_consistent: "entry_consistent (pre_entry p)"
  by (simp add: pre_entry_def entry_consistent_def Let_def prepared.defs)

lemma rr_entry_consistent: "entry_consistent (rr_entry p)"
  by (simp add: rr_entry_def entry_consistent_def Let_def prepared.defs)

lemma mlfq_entry_consistent: "entry_consistent (mlfq_entry p)"
  by (simp add: mlfq_entry_def entry_consistent_def Let_def prepared.defs)


definition work :: "proc list \<Rightarrow> nat" where
  "work ps = sum_list (map (\<lambda>p. nat (p_remaining p) + 1) ps)"

lemma work_append: "work (xs @ ys) = work xs + work ys"
  by (simp add: work_def)

lemma work_Cons: "work (p # ps) = nat (p_remaining p) + 1 + work ps"
  by (simp add: work_def)

lemma work_Nil: "work [] = 0"
  by (simp add: work_def)

lemma rr_drain_work:
  "rr_drain t pending ready = (pending', ready') \<Longrightarrow>
   work pending' + work ready' = work pending + work ready"
proof (induction pending arbitrary: ready)
  case Nil
  then show ?case by simp
next
  case (Cons p pending)
  show ?case
  proof (cases "p_arrival p \<le> t")
    case True
    with Cons.prems have "rr_drain t pending (ready @ [p]) = (pending', ready')" by simp
    from Cons.IH [OF this] show ?thesis by (simp add: work_append work_Cons work_Nil)
  next
    case False
    with Cons.prems show ?thesis by auto
  qed
qed

lemma rr_drain_ready_Nil:
  "rr_drain t pending ready = (pending', []) \<Longrightarrow>
   ready = [] \<and> pending' = pending \<and> (pending \<noteq> [] \<longrightarrow> t < p_arrival (hd pending))"
proof (induction pending arbitrary: ready)
  case Nil
  then show ?case by simp
next
  case (Cons p pending)
  show ?case
  proof (cases "p_arrival p \<le> t")
    case True
    with Cons.prems have "rr_drain t pending (ready @ [p]) = (pending', [])" by simp
    from Cons.IH [OF this] show ?thesis by simp
  next
    case False
    with Cons.prems show ?thesis by auto
  qed
qed

lemma mark_started_remaining [simp]: "p_remaining (mark_started t p) = p_remaining p"
  by (simp add: mark_started_def)

lemma work_slice:
  "0 < quantum \<Longrightarrow> quantum < p_remaining p \<Longrightarrow>
   work [p\<lparr>p_remaining := p_remaining p - quantum\<rparr>] < work [p]"
  by (simp add: work_def)

lemma rr_slice_work:
  assumes "0 < quantum"
  shows "work (rr_pending (rr_slice quantum st current rest))
           + work (rr_ready (rr_slice quantum st current rest))
         < work (rr_pending st) + work (current # rest)"
proof -
  define started where "started = mark_started (rr_time st) current"
  define r where "r = p_remaining started"
  have cur: "work (current # rest) = work [started] + work rest"
    by (simp add: work_def started_def)
  show ?thesis
  proof (cases "quantum < r")
    case True
    then have m: "min quantum r = quantum" by simp
    obtain pending ready where
      d: "rr_drain (rr_time st + quantum) (rr_pending st) rest = (pending, ready)"
      by (cases "rr_drain (rr_time st + quantum) (rr_pending st) rest")
    from rr_drain_work [OF d]
    have w: "work pending + work ready = work (rr_pending st) + work rest" .
    from work_slice [OF assms True [unfolded r_def]]
    have less: "work [started\<lparr>p_remaining := r - quantum\<rparr>] < work [started]"
      by (simp add: r_def)
    from True assms have pos: "0 < r - quantum" by simp
    have "rr_slice quantum st current rest =
        \<lparr>rr_data = write_back (started\<lparr>p_remaining := r - quantum\<rparr>) (rr_data st),
         rr_pending = pending, rr_ready = ready @ [started\<lparr>p_remaining := r - quantum\<rparr>],
         rr_time = rr_time st + quantum\<rparr>"
      unfolding rr_slice_def Let_def started_def [symmetric] r_def [symmetric] m d
      using pos by simp
    with w less cur show ?thesis by (simp add: work_append)
  next
    case False
    then have m: "min quantum r = r" by simp
    obtain pending ready where
      d: "rr_drain (rr_time st + r) (rr_pending st) rest = (pending, ready)"
      by (cases "rr_drain (rr_time st + r) (rr_pending st) rest")
    from rr_drain_work [OF d]
    have w: "work pending + work ready = work (rr_pending st) + work rest" .
    have "rr_slice quantum st current rest =
        \<lparr>rr_data = write_back (started\<lparr>p_remaining := r - r,
                                          p_completionTime := Some (rr_time st + r)\<rparr>) (rr_data st),
         rr_pending = pending, rr_ready = ready, rr_time = rr_time st + r\<rparr>"
      unfolding rr_slice_def Let_def started_def [symmetric] r_def [symmetric] m d
      by simp
    moreover have "0 < work [started]" by (simp add: work_def)
    ultimately show ?thesis using w cur by simp
  qed
qed

definition rr_measure :: "rr_state \<Rightarrow> nat" where
  "rr_measure st =
     2 * (work (rr_pending st) + work (rr_ready st))
     + (if rr_ready st = [] \<and> rr_pending st \<noteq> []
           \<and> rr_time st < p_arrival (hd (rr_pending st)) then 1 else 0)"

lemma rr_measure_bounds:
  "2 * (work (rr_pending st) + work (rr_ready st)) \<le> rr_measure st"
  "rr_measure st \<le> 2 * (work (rr_pending st) + work (rr_ready st)) + 1"
  by (simp_all add: rr_measure_def)

lemma rr_loop_total:
  assumes "0 < quantum"
  shows "\<exists>data. rr_loop quantum st = Some (Inr data)"
proof (induction "rr_measure st" arbitrary: st rule: less_induct)
  case less
  show ?case
  proof (cases "rr_ready st = [] \<and> rr_pending st = []")
    case True
    then show ?thesis by (subst rr_loop.simps) simp
  next
    case busy: False
    obtain pending ready where d: "rr_drain (rr_time st) (rr_pending st) (rr_ready st) = (pending, ready)"
      by (cases "rr_drain (rr_time st) (rr_pending st) (rr_ready st)")
    show ?thesis
    proof (cases ready)
      case Nil
      with d rr_drain_ready_Nil [of "rr_time st" "rr_pending st" "rr_ready st" pending]
      have e: "rr_ready st = []" "pending = rr_pending st"
        "rr_pending st \<noteq> [] \<longrightarrow> rr_time st < p_arrival (hd (rr_pending st))"
        by simp_all
      with busy obtain process tl where p: "rr_pending st = process # tl"
        by (cases "rr_pending st") auto
      let ?st = "st\<lparr>rr_pending := pending, rr_ready := ready, rr_time := p_arrival process\<rparr>"
      from e p Nil have "rr_measure ?st < rr_measure st"
        by (simp add: rr_measure_def)
      from less [OF this] obtain data where "rr_loop quantum ?st = Some (Inr data)" ..
      moreover from busy d Nil e p have "rr_loop quantum st = rr_loop quantum ?st"
        by (subst rr_loop.simps) simp
      ultimately show ?thesis by simp
    next
      case (Cons current rest)
      let ?mid = "st\<lparr>rr_pending := pending, rr_ready := ready\<rparr>"
      let ?st = "rr_slice quantum ?mid current rest"
      from rr_slice_work [OF assms, of ?mid current rest] Cons rr_drain_work [OF d]
      have "work (rr_pending ?st) + work (rr_ready ?st) < work (rr_pending st) + work (rr_ready st)"
        by simp
      then have "2 * (work (rr_pending ?st) + work (rr_ready ?st)) + 1
                   < 2 * (work (rr_pending st) + work (rr_ready st))"
        by simp
      with rr_measure_bounds(1) [of st] rr_measure_bounds(2) [of ?st]
      have "rr_measure ?st < rr_measure st"
        by (rule_tac le_less_trans [OF _ less_le_trans])
      from less [OF this] obtain data where "rr_loop quantum ?st = Some (Inr data)" ..
      moreover from busy d Cons have "rr_loop quantum st = rr_loop quantum ?st"
        by (subst rr_loop.simps) auto
      ultimately show ?thesis by simp
    qed
  qed
qed

lemma runRoundRobin_returns:
  assumes "0 < quantum"
  shows "\<exists>schedule. runRoundRobin processes quantum = Some (Inr schedule)
                    \<and> list_all entry_consistent schedule"
proof -
  let ?data = "map to_proc (prepareProcesses processes)"
  let ?pending = "sort_cmp sortByArrival ?data"
  let ?st = "\<lparr>rr_data = ?data, rr_pending = ?pending, rr_ready = [],
              rr_time = (if ?pending \<noteq> [] then p_arrival (hd ?pending) else 0)\<rparr>"
  from rr_loop_total [OF assms, of ?st] obtain data where "rr_loop quantum ?st = Some (Inr data)" ..
  with assms have "runRoundRobin processes quantum = Some (Inr (map rr_entry data))"
    by (simp add: runRoundRobin_def Let_def)
  moreover have "list_all entry_consistent (map rr_entry data)"
    by (simp add: list_all_iff rr_entry_consistent)
  ultimately show ?thesis by blast
qed


definition qwork :: "proc list list \<Rightarrow> nat" where
  "qwork queues = sum_list (map work queues)"

lemma qwork_update:
  "i < length qs \<Longrightarrow> qwork (qs[i := xs]) + work (qs ! i) = qwork qs + work xs"
proof (induction qs arbitrary: i)
  case Nil
  then show ?case by simp
next
  case (Cons q qs)
  show ?case
  proof (cases i)
    case 0
    then show ?thesis by (simp add: qwork_def)
  next
    case (Suc j)
    with Cons.prems have "qwork (qs[j := xs]) + work (qs ! j) = qwork qs + work xs"
      by (intro Cons.IH) simp
    with Suc show ?thesis by (simp add: qwork_def)
  qed
qed

lemma qwork_push:
  "i < length qs \<Longrightarrow> qwork (qs[i := qs ! i @ [p]]) = qwork qs + work [p]"
  using qwork_update [of i qs "qs ! i @ [p]"] by (simp add: work_append)

lemma work_level [simp]: "work [p\<lparr>p_level := l\<rparr>] = work [p]"
  by (simp add: work_def)

definition levels_le :: "nat \<Rightarrow> proc list \<Rightarrow> bool" where
  "levels_le n ps \<longleftrightarrow> list_all (\<lambda>p. p_level p \<le> n) ps"

lemma levels_le_append [simp]: "levels_le n (xs @ ys) \<longleftrightarrow> levels_le n xs \<and> levels_le n ys"
  by (simp add: levels_le_def)

lemma levels_le_Cons [simp]: "levels_le n (p # ps) \<longleftrightarrow> p_level p \<le> n \<and> levels_le n ps"
  by (simp add: levels_le_def)

lemma levels_le_Nil [simp]: "levels_le n []"
  by (simp add: levels_le_def)

lemma list_all_update:
  "list_all P xs \<Longrightarrow> P y \<Longrightarrow> list_all P (xs[i := y])"
  unfolding list_all_iff using set_update_subset_insert [of xs i y] by auto

lemma levels_le_write_back:
  "levels_le n data \<Longrightarrow> p_level p \<le> n \<Longrightarrow> levels_le n (write_back p data)"
  unfolding levels_le_def write_back_def by (rule list_all_update)

lemma mlfq_drain_work:
  "queues \<noteq> [] \<Longrightarrow> mlfq_drain t pending queues = (pending', queues') \<Longrightarrow>
   work pending' + qwork queues' = work pending + qwork queues"
proof (induction pending arbitrary: queues)
  case Nil
  then show ?case by simp
next
  case (Cons p pending)
  let ?qs = "queues[0 := queues ! 0 @ [p\<lparr>p_level := 0\<rparr>]]"
  show ?case
  proof (cases "p_arrival p \<le> t")
    case True
    with Cons.prems have d: "mlfq_drain t pending ?qs = (pending', queues')" and ne: "?qs \<noteq> []"
      by simp_all
    from Cons.prems(1) have "0 < length queues" by simp
    from Cons.IH [OF ne d] qwork_push [OF this, of "p\<lparr>p_level := 0\<rparr>"]
    show ?thesis by (simp add: work_Cons work_def)
  next
    case False
    with Cons.prems show ?thesis by auto
  qed
qed

lemma mlfq_drain_length:
  "mlfq_drain t pending queues = (pending', queues') \<Longrightarrow> length queues' = length queues"
proof (induction pending arbitrary: queues)
  case Nil
  then show ?case by simp
next
  case (Cons p pending)
  let ?qs = "queues[0 := queues ! 0 @ [p\<lparr>p_level := 0\<rparr>]]"
  show ?case
  proof (cases "p_arrival p \<le> t")
    case True
    with Cons.prems have d: "mlfq_drain t pending ?qs = (pending', queues')" by simp
    from Cons.IH [OF d] show ?thesis by simp
  next
    case False
    with Cons.prems show ?thesis by auto
  qed
qed

lemma mlfq_drain_levels:
  "mlfq_drain t pending queues = (pending', queues') \<Longrightarrow>
   levels_le n pending \<Longrightarrow> list_all (levels_le n) queues \<Longrightarrow>
   levels_le n pending' \<and> list_all (levels_le n) queues'"
proof (induction pending arbitrary: queues)
  case Nil
  then show ?case by simp
next
  case (Cons p pending)
  let ?qs = "queues[0 := queues ! 0 @ [p\<lparr>p_level := 0\<rparr>]]"
  show ?case
  proof (cases "p_arrival p \<le> t")
    case True
    with Cons.prems have d: "mlfq_drain t pending ?qs = (pending', queues')" by simp
    have "list_all (levels_le n) ?qs"
    proof (cases queues)
      case Nil
      then show ?thesis by simp
    next
      case (Cons q qs)
      with Cons.prems(3) show ?thesis by simp
    qed
    moreover from Cons.prems(2) have "levels_le n pending" by simp
    ultimately show ?thesis using Cons.IH [OF d] by simp
  next
    case False
    with Cons.prems show ?thesis by auto
  qed
qed

lemma mlfq_drain_front:
  "queues \<noteq> [] \<Longrightarrow> queues ! 0 \<noteq> [] \<Longrightarrow>
   mlfq_drain t pending queues = (pending', queues') \<Longrightarrow> queues' ! 0 \<noteq> []"
proof (induction pending arbitrary: queues)
  case Nil
  then show ?case by simp
next
  case (Cons p pending)
  let ?qs = "queues[0 := queues ! 0 @ [p\<lparr>p_level := 0\<rparr>]]"
  show ?case
  proof (cases "p_arrival p \<le> t")
    case True
    with Cons.prems have d: "mlfq_drain t pending ?qs = (pending', queues')" and ne: "?qs \<noteq> []"
      by simp_all
    from Cons.prems(1) have "?qs ! 0 \<noteq> []" by (cases queues) simp_all
    from Cons.IH [OF ne this d] show ?thesis .
  next
    case False
    with Cons.prems show ?thesis by auto
  qed
qed

lemma mlfq_drain_idle:
  assumes "queues \<noteq> []" and "mlfq_drain t pending queues = (pending', queues')"
    and "list_all (\<lambda>queue. queue = []) queues'"
  shows "pending' = pending \<and> queues' = queues
         \<and> (pending \<noteq> [] \<longrightarrow> t < p_arrival (hd pending))"
proof (cases pending)
  case Nil
  with assms(2) show ?thesis by simp
next
  case (Cons p rest)
  show ?thesis
  proof (cases "p_arrival p \<le> t")
    case True
    let ?qs = "queues[0 := queues ! 0 @ [p\<lparr>p_level := 0\<rparr>]]"
    from True Cons assms(2) have d: "mlfq_drain t rest ?qs = (pending', queues')" by simp
    from assms(1) have ne: "?qs \<noteq> []" and front: "?qs ! 0 \<noteq> []"
      by (cases queues, simp_all)+
    from mlfq_drain_front [OF ne front d] have "queues' ! 0 \<noteq> []" .
    moreover from mlfq_drain_length [OF d] assms(1) have "0 < length queues'" by simp
    ultimately have False using assms(3) by (simp add: list_all_length)
    then show ?thesis ..
  next
    case False
    with Cons assms(2) show ?thesis by auto
  qed
qed

lemma findIndex_None: "findIndex P xs = None \<Longrightarrow> list_all (\<lambda>x. \<not> P x) xs"
  by (induction xs) (auto split: if_splits)

lemma findIndex_Some: "findIndex P xs = Some i \<Longrightarrow> i < length xs \<and> P (xs ! i)"
proof (induction xs arbitrary: i)
  case Nil
  then show ?case by simp
next
  case (Cons x xs)
  show ?case
  proof (cases "P x")
    case True
    with Cons.prems show ?thesis by simp
  next
    case False
    with Cons.prems obtain j where "findIndex P xs = Some j" "i = Suc j" by auto
    with Cons.IH [of j] show ?thesis by simp
  qed
qed


definition pos_quantums :: "int option list \<Rightarrow> bool" where
  "pos_quantums quantums \<longleftrightarrow>
     list_all (\<lambda>q. case q of None \<Rightarrow> True | Some v \<Rightarrow> 0 < v) quantums"

lemma mlfq_slice_props:
  assumes pos: "pos_quantums quantums"
    and qi: "queueIndex < length (mq_queues st)" "length (mq_queues st) = length quantums"
    and cur: "mq_queues st ! queueIndex = current # rest"
    and lv: "levels_le n (mq_data st)" "levels_le n (mq_pending st)"
      "list_all (levels_le n) (mq_queues st)" "n = length quantums - 1"
  defines "st' \<equiv> mlfq_slice quantums st queueIndex current rest"
  shows "work (mq_pending st') + qwork (mq_queues st')
           < work (mq_pending st) + qwork (mq_queues st)
         \<and> length (mq_queues st') = length (mq_queues st)
         \<and> levels_le n (mq_data st') \<and> levels_le n (mq_pending st')
         \<and> list_all (levels_le n) (mq_queues st')"
proof -
  define started where "started = mark_started (mq_time st) current"
  define r where "r = p_remaining started"
  define runTime where "runTime = (case quantums ! queueIndex of
                                     None \<Rightarrow> r | Some quantum \<Rightarrow> min quantum r)"
  define queues1 where "queues1 = (mq_queues st)[queueIndex := rest]"
  obtain pending queues where
    d: "mlfq_drain (mq_time st + runTime) (mq_pending st) queues1 = (pending, queues)"
    by (cases "mlfq_drain (mq_time st + runTime) (mq_pending st) queues1")
  from qi have ne1: "queues1 \<noteq> []" by (auto simp: queues1_def)
  from qwork_update [OF qi(1), of rest] cur
  have w1: "qwork queues1 + work (current # rest) = qwork (mq_queues st) + work rest"
    by (simp add: queues1_def)
  have wc: "work (current # rest) = work [started] + work rest"
    by (simp add: work_def started_def)
  from mlfq_drain_work [OF ne1 d]
  have w2: "work pending + qwork queues = work (mq_pending st) + qwork queues1" .
  from mlfq_drain_length [OF d] have len: "length queues = length (mq_queues st)"
    by (simp add: queues1_def)
  from lv(3) cur qi(1) have lcur: "p_level current \<le> n" and lrest: "levels_le n rest"
    by (auto simp: list_all_length dest!: spec [of _ queueIndex])
  from lv(3) lrest have "list_all (levels_le n) queues1"
    unfolding queues1_def by (rule list_all_update)
  from mlfq_drain_levels [OF d lv(2) this]
  have l2: "levels_le n pending" "list_all (levels_le n) queues" by simp_all
  have lst: "p_level started = p_level current"
    by (simp add: started_def mark_started_def)
  have unfold: "st' =
      (if 0 < r - runTime
       then let nextLevel = min (queueIndex + 1) (length queues - 1);
                demoted = started\<lparr>p_remaining := r - runTime, p_level := nextLevel\<rparr>
            in \<lparr>mq_data = write_back demoted (mq_data st), mq_pending = pending,
                mq_queues = queues[nextLevel := queues ! nextLevel @ [demoted]],
                mq_time = mq_time st + runTime\<rparr>
       else \<lparr>mq_data = write_back (started\<lparr>p_remaining := r - runTime,
                                              p_completionTime := Some (mq_time st + runTime)\<rparr>)
                          (mq_data st),
             mq_pending = pending, mq_queues = queues, mq_time = mq_time st + runTime\<rparr>)"
    unfolding st'_def mlfq_slice_def Let_def started_def [symmetric] r_def [symmetric]
      runTime_def [symmetric] queues1_def [symmetric] d
    by simp
  show ?thesis
  proof (cases "0 < r - runTime")
    case True
    define nextLevel where "nextLevel = min (queueIndex + 1) (length queues - 1)"
    define demoted where "demoted = started\<lparr>p_remaining := r - runTime, p_level := nextLevel\<rparr>"
    from qi len have nl: "nextLevel < length queues" "nextLevel \<le> n"
      using lv(4) by (auto simp: nextLevel_def)
    from True obtain quantum where q: "quantums ! queueIndex = Some quantum" "runTime = min quantum r"
      by (cases "quantums ! queueIndex") (auto simp: runTime_def)
    from pos qi q(1) have "0 < quantum"
      by (auto simp: pos_quantums_def list_all_length dest!: spec [of _ queueIndex])
    with True q(2) have qr: "quantum < r" "runTime = quantum"
      by (simp_all add: min_def split: if_splits)
    from work_slice [OF \<open>0 < quantum\<close> qr(1) [unfolded r_def]]
    have "work [demoted] < work [started]"
      by (simp add: demoted_def r_def qr(2) work_def)
    moreover have "qwork (queues[nextLevel := queues ! nextLevel @ [demoted]])
        = qwork queues + work [demoted]"
      by (rule qwork_push [OF nl(1)])
    moreover from True have st'': "st' = \<lparr>mq_data = write_back demoted (mq_data st),
        mq_pending = pending, mq_queues = queues[nextLevel := queues ! nextLevel @ [demoted]],
        mq_time = mq_time st + runTime\<rparr>"
      unfolding unfold by (simp add: Let_def nextLevel_def demoted_def)
    moreover have ld: "p_level demoted \<le> n" using nl(2) by (simp add: demoted_def)
    moreover from nl(1) l2(2) have "levels_le n (queues ! nextLevel)"
      by (simp add: list_all_length)
    with ld l2(2) have "list_all (levels_le n) (queues[nextLevel := queues ! nextLevel @ [demoted]])"
      by (intro list_all_update) simp_all
    ultimately show ?thesis
      using w1 w2 wc len l2 lv(1) by (simp add: levels_le_write_back)
  next
    case False
    with unfold have st'': "st' =
        \<lparr>mq_data = write_back (started\<lparr>p_remaining := r - runTime,
                                          p_completionTime := Some (mq_time st + runTime)\<rparr>)
                      (mq_data st),
         mq_pending = pending, mq_queues = queues, mq_time = mq_time st + runTime\<rparr>"
      by simp
    have "0 < work [started]" by (simp add: work_def)
    with st'' w1 w2 wc len l2 lv(1) lst lcur show ?thesis
      by (simp add: levels_le_write_back)
  qed
qed


definition mlfq_measure :: "mlfq_state \<Rightarrow> nat" where
  "mlfq_measure st =
     2 * (work (mq_pending st) + qwork (mq_queues st))
     + (if list_all (\<lambda>queue. queue = []) (mq_queues st) \<and> mq_pending st \<noteq> []
           \<and> mq_time st < p_arrival (hd (mq_pending st)) then 1 else 0)"

lemma mlfq_measure_bounds:
  "2 * (work (mq_pending st) + qwork (mq_queues st)) \<le> mlfq_measure st"
  "mlfq_measure st \<le> 2 * (work (mq_pending st) + qwork (mq_queues st)) + 1"
  by (simp_all add: mlfq_measure_def)

lemma mlfq_loop_total:
  assumes pos: "pos_quantums quantums" and n: "n = length quantums - 1"
  shows "mq_queues st \<noteq> [] \<Longrightarrow> length (mq_queues st) = length quantums \<Longrightarrow>
         levels_le n (mq_data st) \<Longrightarrow> levels_le n (mq_pending st) \<Longrightarrow>
         list_all (levels_le n) (mq_queues st) \<Longrightarrow>
         \<exists>data. mlfq_loop quantums st = Some (Inr data) \<and> levels_le n data"
proof (induction "mlfq_measure st" arbitrary: st rule: less_induct)
  case less
  note ne = less.prems(1) and len = less.prems(2) and lv = less.prems(3,4,5)
  show ?case
  proof (cases "mq_pending st = [] \<and> list_all (\<lambda>queue. queue = []) (mq_queues st)")
    case True
    with lv(1) show ?thesis by (subst mlfq_loop.simps) simp
  next
    case busy: False
    obtain pending queues where
      d: "mlfq_drain (mq_time st) (mq_pending st) (mq_queues st) = (pending, queues)"
      by (cases "mlfq_drain (mq_time st) (mq_pending st) (mq_queues st)")
    from mlfq_drain_length [OF d] len have len': "length queues = length quantums" by simp
    from mlfq_drain_levels [OF d lv(2,3)]
    have lv': "levels_le n pending" "list_all (levels_le n) queues" by simp_all
    from mlfq_drain_work [OF ne d]
    have w: "work pending + qwork queues = work (mq_pending st) + qwork (mq_queues st)" .
    let ?mid = "st\<lparr>mq_pending := pending, mq_queues := queues\<rparr>"
    show ?thesis
    proof (cases "findIndex (\<lambda>queue. queue \<noteq> []) queues")
      case None
      from findIndex_None [OF None] have empty: "list_all (\<lambda>queue. queue = []) queues" by simp
      from mlfq_drain_idle [OF ne d empty]
      have e: "pending = mq_pending st" "queues = mq_queues st"
        "mq_pending st \<noteq> [] \<longrightarrow> mq_time st < p_arrival (hd (mq_pending st))"
        by simp_all
      with busy empty obtain process rest where p: "mq_pending st = process # rest"
        by (cases "mq_pending st") auto
      let ?st = "st\<lparr>mq_pending := pending, mq_queues := queues, mq_time := p_arrival process\<rparr>"
      from e p empty have "mlfq_measure ?st < mlfq_measure st"
        by (simp add: mlfq_measure_def)
      from less.hyps [OF this] ne len lv e
      obtain data where "mlfq_loop quantums ?st = Some (Inr data)" "levels_le n data"
        by auto
      moreover from busy d None e p have "mlfq_loop quantums st = mlfq_loop quantums ?st"
        by (subst mlfq_loop.simps) auto
      ultimately show ?thesis by simp
    next
      case (Some queueIndex)
      from findIndex_Some [OF Some] obtain current rest where
        qi: "queueIndex < length queues" and cur: "queues ! queueIndex = current # rest"
        by (cases "queues ! queueIndex") auto
      let ?st = "mlfq_slice quantums ?mid queueIndex current rest"
      from mlfq_slice_props [OF pos, of queueIndex ?mid current rest n] qi len' cur lv(1) lv' n
      have props: "work (mq_pending ?st) + qwork (mq_queues ?st) < work pending + qwork queues"
        "length (mq_queues ?st) = length queues"
        "levels_le n (mq_data ?st)" "levels_le n (mq_pending ?st)"
        "list_all (levels_le n) (mq_queues ?st)"
        by simp_all
      from props(1) w have "2 * (work (mq_pending ?st) + qwork (mq_queues ?st)) + 1
          < 2 * (work (mq_pending st) + qwork (mq_queues st))"
        by simp
      with mlfq_measure_bounds(1) [of st] mlfq_measure_bounds(2) [of ?st]
      have "mlfq_measure ?st < mlfq_measure st"
        by (rule_tac le_less_trans [OF _ less_le_trans])
      moreover from props(2) qi have "mq_queues ?st \<noteq> []" by auto
      moreover from props(2) len' have "length (mq_queues ?st) = length quantums" by simp
      ultimately obtain data where "mlfq_loop quantums ?st = Some (Inr data)" "levels_le n data"
        using less.hyps [of ?st] props(3,4,5) by blast
      moreover from busy d Some cur have "mlfq_loop quantums st = mlfq_loop quantums ?st"
        by (subst mlfq_loop.simps) auto
      ultimately show ?thesis by simp
    qed
  qed
qed

lemma levels_le_to_proc: "levels_le n (map to_proc ps)"
  by (induction ps) (simp_all add: to_proc_def prepared.defs)

lemma levels_le_sort_cmp: "levels_le n xs \<Longrightarrow> levels_le n (sort_cmp cmp xs)"
  by (simp add: levels_le_def list_all_iff set_sort_cmp)

lemma runMlfq_returns:
  assumes "parseMlfqLevels numbers \<noteq> []"
  shows "\<exists>schedule. runMlfq processes numbers = Some (Inr schedule)
           \<and> list_all entry_consistent schedule
           \<and> list_all (\<lambda>e. \<exists>l. e_level e = Some l \<and> l \<le> length (parseMlfqLevels numbers))
                schedule"
proof -
  define levels where "levels = parseMlfqLevels numbers"
  define quantums where "quantums = mlfq_quantums levels"
  let ?data = "map to_proc (prepareProcesses processes)"
  let ?pending = "sort_cmp sortByArrival ?data"
  let ?st = "\<lparr>mq_data = ?data, mq_pending = ?pending, mq_queues = map (\<lambda>_. []) quantums,
              mq_time = (if ?pending \<noteq> [] then p_arrival (hd ?pending) else 0)\<rparr>"
  have pos: "pos_quantums quantums"
    by (simp add: pos_quantums_def quantums_def mlfq_quantums_def levels_def parseMlfqLevels_def
        list_all_iff)
  have n: "length levels = length quantums - 1" by (simp add: quantums_def mlfq_quantums_def)
  have "\<exists>data. mlfq_loop quantums ?st = Some (Inr data) \<and> levels_le (length levels) data"
    by (rule mlfq_loop_total [OF pos n])
       (simp_all add: levels_le_to_proc levels_le_sort_cmp quantums_def mlfq_quantums_def
          list_all_iff)
  then obtain data where loop: "mlfq_loop quantums ?st = Some (Inr data)"
    and lv: "levels_le (length levels) data"
    by blast
  from assms loop have "runMlfq processes numbers = Some (Inr (map mlfq_entry data))"
    by (simp add: runMlfq_def Let_def levels_def quantums_def)
  moreover have "list_all entry_consistent (map mlfq_entry data)"
    by (simp add: list_all_iff mlfq_entry_consistent)
  moreover from lv have
    "list_all (\<lambda>e. \<exists>l. e_level e = Some l \<and> l \<le> length levels) (map mlfq_entry data)"
    by (simp add: levels_le_def list_all_iff mlfq_entry_def Let_def prepared.defs)
  ultimately show ?thesis unfolding levels_def by blast
qed


lemma pre_loop_consistent:
  "list_all entry_consistent (runPreemptive ps comparator)"
  by (simp add: runPreemptive_def Let_def list_all_iff pre_entry_consistent)

text \<open>
  Claim C1. Under every policy (FCFS, SJF and Priority in their non-preemptive and
  preemptive forms, Round Robin with a positive quantum, MLFQ with at least one positive
  level) a schedule is returned, and each of its entries has
  turnaroundTime = completionTime - arrival and waitingTime = turnaroundTime - burst.
  This holds for every process list, well-formed or not.
\<close>

theorem schedule_times_consistent:
  "list_all entry_consistent (runFcfs ps)
   \<and> list_all entry_consistent (runNonPreemptive ps compareByBurst)
   \<and> list_all entry_consistent (runPreemptive ps compareByRemaining)
   \<and> list_all entry_consistent (runNonPreemptive ps compareByPriority)
   \<and> list_all entry_consistent (runPreemptive ps compareByPriority)
   \<and> (0 < quantum \<longrightarrow>
        (\<exists>schedule. runRoundRobin ps quantum = Some (Inr schedule)
                     \<and> list_all entry_consistent schedule))
   \<and> (parseMlfqLevels numbers \<noteq> [] \<longrightarrow>
        (\<exists>schedule. runMlfq ps numbers = Some (Inr schedule)
                     \<and> list_all entry_consistent schedule))"
proof -
  have "list_all entry_consistent (runFcfs ps)"
    by (simp add: runFcfs_def fcfs_map_consistent)
  moreover have "list_all entry_consistent (runNonPreemptive ps comparator)" for comparator
    by (simp add: runNonPreemptive_def Let_def np_loop_consistent)
  moreover note pre_loop_consistent runRoundRobin_returns
  moreover have "parseMlfqLevels numbers \<noteq> [] \<longrightarrow>
        (\<exists>schedule. runMlfq ps numbers = Some (Inr schedule)
                     \<and> list_all entry_consistent schedule)"
    using runMlfq_returns [of numbers ps] by blast
  ultimately show ?thesis by blast
qed

theorem schedule_times_consistent_witness:
  "(0::int) < 2 \<and> parseMlfqLevels [2, 4, 8] \<noteq> []
   \<and> list_all entry_consistent (runFcfs initialProcesses)
   \<and> list_all entry_consistent (runNonPreemptive initialProcesses compareByBurst)
   \<and> list_all entry_consistent (runPreemptive initialProcesses compareByRemaining)
   \<and> list_all entry_consistent (runNonPreemptive initialProcesses compareByPriority)
   \<and> list_all entry_consistent (runPreemptive initialProcesses compareByPriority)
   \<and> (\<exists>schedule. runRoundRobin initialProcesses 2 = Some (Inr schedule)
                   \<and> list_all entry_consistent schedule)
   \<and> (\<exists>schedule. runMlfq initialProcesses [2, 4, 8] = Some (Inr schedule)
                   \<and> list_all entry_consistent schedule)"
proof -
  have q: "(0::int) < 2" by simp
  have l: "parseMlfqLevels [2, 4, 8] \<noteq> []" by (simp add: parseMlfqLevels_def)
  from schedule_times_consistent [of initialProcesses 2 "[2, 4, 8]"] q l
  show ?thesis by blast
qed


lemma rr_drain_sorted:
  "sorted (map p_arrival pending) \<Longrightarrow>
   rr_drain t pending ready =
     (filter (\<lambda>p. t < p_arrival p) pending, ready @ filter (\<lambda>p. p_arrival p \<le> t) pending)"
proof (induction pending arbitrary: ready)
  case Nil
  then show ?case by simp
next
  case (Cons p pending)
  show ?case
  proof (cases "p_arrival p \<le> t")
    case True
    with Cons show ?thesis by simp
  next
    case False
    with Cons.prems have "\<forall>x \<in> set pending. t < p_arrival x" by auto
    then have "filter (\<lambda>p. t < p_arrival p) pending = pending"
      "filter (\<lambda>p. p_arrival p \<le> t) pending = []"
      by (auto simp: filter_empty_conv intro!: filter_True)
    with False show ?thesis by simp
  qed
qed

lemma sorted_filter_arrival:
  "sorted (map p_arrival pending) \<Longrightarrow> sorted (map p_arrival (filter P pending))"
  by (induction pending) auto

lemma sorted_insort_cmp:
  "sorted (map p_arrival ys) \<Longrightarrow> sorted (map p_arrival (insort_cmp sortByArrival x ys))"
proof (induction ys)
  case Nil
  then show ?case by simp
next
  case (Cons y ys)
  show ?case
  proof (cases "sortByArrival x y \<le> 0")
    case True
    then have "p_arrival x \<le> p_arrival y"
      by (simp add: sortByArrival_def split: if_splits)
    with True Cons.prems show ?thesis by auto
  next
    case False
    then have "p_arrival y \<le> p_arrival x"
      by (simp add: sortByArrival_def split: if_splits)
    with False Cons show ?thesis by (auto simp: set_insort_cmp)
  qed
qed

lemma sorted_sort_cmp: "sorted (map p_arrival (sort_cmp sortByArrival xs))"
  by (induction xs) (simp_all add: sort_cmp_def sorted_insort_cmp)

text \<open>
  Claim C7. In a Round Robin turn with a positive quantum (the pending list being in
  arrival order, as the initial sort leaves it), the processes that arrive during the
  slice or exactly at its end are appended to the ready queue, in arrival order, after
  the slice has run and before the preempted process is put back: the new ready queue is
  the old one, then these arrivals, then the preempted process if it has not finished.
\<close>

theorem rr_arrivals_before_preempted:
  assumes "0 < quantum" and "sorted (map p_arrival (rr_pending st))"
  shows "let st' = rr_slice quantum st current rest;
             arrived = filter (\<lambda>p. p_arrival p \<le> rr_time st') (rr_pending st);
             preempted = (mark_started (rr_time st) current)
                           \<lparr>p_remaining := p_remaining current - quantum\<rparr>
         in rr_time st' = rr_time st + min quantum (p_remaining current)
            \<and> rr_pending st' = filter (\<lambda>p. rr_time st' < p_arrival p) (rr_pending st)
            \<and> sorted (map p_arrival (rr_pending st'))
            \<and> rr_ready st' =
                 (if quantum < p_remaining current then rest @ arrived @ [preempted]
                  else rest @ arrived)"
proof (cases "quantum < p_remaining current")
  case True
  with assms(1) have "min quantum (p_remaining current) = quantum"
    "0 < p_remaining current - quantum"
    by simp_all
  with True show ?thesis
    by (simp add: rr_slice_def Let_def rr_drain_sorted [OF assms(2)]
        sorted_filter_arrival [OF assms(2)])
next
  case False
  then have "min quantum (p_remaining current) = p_remaining current" by simp
  with False show ?thesis
    by (simp add: rr_slice_def Let_def rr_drain_sorted [OF assms(2)]
        sorted_filter_arrival [OF assms(2)])
qed


text \<open>
  The view's processes at time 0 under Round Robin: P1 is about to run, P2 and P3 are
  still pending.
\<close>

definition rr_demo :: rr_state where
  "rr_demo =
     \<lparr>rr_data = map to_proc (prepareProcesses initialProcesses),
      rr_pending = tl (map to_proc (prepareProcesses initialProcesses)),
      rr_ready = [], rr_time = 0\<rparr>"

theorem rr_arrivals_before_preempted_witness:
  "(0::int) < 2 \<and> sorted (map p_arrival (rr_pending rr_demo))
   \<and> map p_name (rr_ready (rr_slice 2 rr_demo (hd (rr_data rr_demo)) []))
       = [''P2'', ''P3'', ''P1'']"
proof -
  have q: "(0::int) < 2" by simp
  have s: "sorted (map p_arrival (rr_pending rr_demo))" by code_simp
  let ?cur = "hd (rr_data rr_demo)"
  let ?st = "rr_slice 2 rr_demo ?cur []"
  from rr_arrivals_before_preempted [OF q s, of ?cur "[]"]
  have "rr_ready ?st =
      (if 2 < p_remaining ?cur
       then [] @ filter (\<lambda>p. p_arrival p \<le> rr_time ?st) (rr_pending rr_demo)
              @ [(mark_started (rr_time rr_demo) ?cur)\<lparr>p_remaining := p_remaining ?cur - 2\<rparr>]
       else [] @ filter (\<lambda>p. p_arrival p \<le> rr_time ?st) (rr_pending rr_demo))"
    by (simp add: Let_def)
  moreover have "map p_name
      (if 2 < p_remaining ?cur
       then [] @ filter (\<lambda>p. p_arrival p \<le> rr_time ?st) (rr_pending rr_demo)
              @ [(mark_started (rr_time rr_demo) ?cur)\<lparr>p_remaining := p_remaining ?cur - 2\<rparr>]
       else [] @ filter (\<lambda>p. p_arrival p \<le> rr_time ?st) (rr_pending rr_demo))
      = [''P2'', ''P3'', ''P1'']"
    by code_simp
  ultimately have "map p_name (rr_ready ?st) = [''P2'', ''P3'', ''P1'']" by (simp only:)
  with q s show ?thesis by blast
qed

text \<open>Two processes: P0 arrives at 0 and needs 5 units, P1 arrives at 1 and needs 1.\<close>

definition mlfq_demo :: "process_input list" where
  "mlfq_demo =
     [\<lparr>i_name = ''P0'', i_arrival = 0, i_burst = 5, i_priority = None\<rparr>,
      \<lparr>i_name = ''P1'', i_arrival = 1, i_burst = 1, i_priority = None\<rparr>]"

text \<open>
  Claim C8, as stated, fails. With the single configured quantum 2 (N = 1) the claim has
  one level with an unbounded quantum, so P0 would run from 0 to 5 without interruption
  and stay at level 0. The code preempts P0 after 2 units and demotes it to level 1: P1
  runs from 2 to 3, P0 completes at 6 and is reported at level 1.
\<close>

theorem mlfq_single_level_preempts:
  "map_option (map_sum id (map (\<lambda>e. (p_name e, e_level e, e_startTime e, e_completionTime e))))
     (runMlfq mlfq_demo [2])
   = Some (Inr [(''P0'', Some 1, 0, 6), (''P1'', Some 0, 2, 3)])"
  by code_simp

lemma mlfq_slice_last_level:
  assumes "quantums ! queueIndex = None"
  shows "let st' = mlfq_slice quantums st queueIndex current rest
         in mq_time st' = mq_time st + p_remaining current
            \<and> (mq_pending st', mq_queues st')
                = mlfq_drain (mq_time st') (mq_pending st) ((mq_queues st)[queueIndex := rest])"
  using assms by (simp add: mlfq_slice_def Let_def split: prod.splits)

lemma mlfq_slice_preempts:
  assumes "quantums ! i = Some quantum" and "0 < quantum" and "quantum < p_remaining current"
    and "i + 1 < length (mq_queues st)"
  shows "let st' = mlfq_slice quantums st i current rest;
             demoted = (mark_started (mq_time st) current)
                         \<lparr>p_remaining := p_remaining current - quantum, p_level := i + 1\<rparr>
         in mq_time st' = mq_time st + quantum
            \<and> mq_queues st' ! (i + 1) =
                 snd (mlfq_drain (mq_time st') (mq_pending st) ((mq_queues st)[i := rest]))
                   ! (i + 1) @ [demoted]"
proof -
  obtain pending queues where
    d: "mlfq_drain (mq_time st + quantum) (mq_pending st) ((mq_queues st)[i := rest])
          = (pending, queues)"
    by (cases "mlfq_drain (mq_time st + quantum) (mq_pending st) ((mq_queues st)[i := rest])")
  from mlfq_drain_length [OF d] assms(4) have len: "i + 1 < length queues" by simp
  then have "min (i + 1) (length queues - 1) = i + 1" by simp
  with assms d len show ?thesis
    by (simp add: mlfq_slice_def Let_def)
qed

text \<open>
  Claim C8, amended. For N configured positive quanta the scheduler has N + 1 levels: levels
  0 to N - 1 use the configured quanta and level N has an unbounded one. A run returns a
  schedule in which no process is below level N; a turn at level N runs the process to its
  end and does not put it back in a queue; and a turn at a configured level i whose quantum
  is smaller than the remaining time stops after that quantum and puts the process at the
  end of level i + 1.
\<close>

theorem mlfq_has_one_more_level:
  assumes "parseMlfqLevels numbers \<noteq> []"
  shows "(\<exists>schedule. runMlfq processes numbers = Some (Inr schedule)
            \<and> list_all (\<lambda>e. \<exists>l. e_level e = Some l \<and> l \<le> length (parseMlfqLevels numbers))
                 schedule)
    \<and> length (mlfq_quantums (parseMlfqLevels numbers)) = length (parseMlfqLevels numbers) + 1
    \<and> (let st' = mlfq_slice (mlfq_quantums (parseMlfqLevels numbers)) st
                     (length (parseMlfqLevels numbers)) current rest
        in mq_time st' = mq_time st + p_remaining current
           \<and> (mq_pending st', mq_queues st')
               = mlfq_drain (mq_time st') (mq_pending st)
                   ((mq_queues st)[length (parseMlfqLevels numbers) := rest]))
    \<and> (\<forall>i < length (parseMlfqLevels numbers).
          parseMlfqLevels numbers ! i < p_remaining current
          \<and> length (mq_queues st) = length (parseMlfqLevels numbers) + 1 \<longrightarrow>
          (let st' = mlfq_slice (mlfq_quantums (parseMlfqLevels numbers)) st i current rest;
               demoted = (mark_started (mq_time st) current)
                           \<lparr>p_remaining := p_remaining current - parseMlfqLevels numbers ! i,
                            p_level := i + 1\<rparr>
           in mq_time st' = mq_time st + parseMlfqLevels numbers ! i
              \<and> mq_queues st' ! (i + 1) =
                   snd (mlfq_drain (mq_time st') (mq_pending st) ((mq_queues st)[i := rest]))
                     ! (i + 1) @ [demoted]))"
proof -
  define levels where "levels = parseMlfqLevels numbers"
  have last: "mlfq_quantums levels ! length levels = None"
    by (simp add: mlfq_quantums_def nth_append)
  have nth: "mlfq_quantums levels ! i = Some (levels ! i)" if "i < length levels" for i
    using that by (simp add: mlfq_quantums_def nth_append)
  have pos: "0 < levels ! i" if "i < length levels" for i
  proof -
    from that have "levels ! i \<in> set levels" by simp
    then show ?thesis by (simp add: levels_def parseMlfqLevels_def)
  qed
  have "length (mlfq_quantums levels) = length levels + 1"
    by (simp add: mlfq_quantums_def)
  moreover note runMlfq_returns [OF assms, of processes, folded levels_def]
    mlfq_slice_last_level [OF last, of st current rest]
  moreover have "\<forall>i < length levels.
          levels ! i < p_remaining current \<and> length (mq_queues st) = length levels + 1 \<longrightarrow>
          (let st' = mlfq_slice (mlfq_quantums levels) st i current rest;
               demoted = (mark_started (mq_time st) current)
                           \<lparr>p_remaining := p_remaining current - levels ! i, p_level := i + 1\<rparr>
           in mq_time st' = mq_time st + levels ! i
              \<and> mq_queues st' ! (i + 1) =
                   snd (mlfq_drain (mq_time st') (mq_pending st) ((mq_queues st)[i := rest]))
                     ! (i + 1) @ [demoted])"
  proof (intro allI impI)
    fix i assume i: "i < length levels"
      and "levels ! i < p_remaining current \<and> length (mq_queues st) = length levels + 1"
    then have "levels ! i < p_remaining current" "i + 1 < length (mq_queues st)" by simp_all
    from mlfq_slice_preempts [OF nth [OF i] pos [OF i] this]
    show "let st' = mlfq_slice (mlfq_quantums levels) st i current rest;
               demoted = (mark_started (mq_time st) current)
                           \<lparr>p_remaining := p_remaining current - levels ! i, p_level := i + 1\<rparr>
           in mq_time st' = mq_time st + levels ! i
              \<and> mq_queues st' ! (i + 1) =
                   snd (mlfq_drain (mq_time st') (mq_pending st) ((mq_queues st)[i := rest]))
                     ! (i + 1) @ [demoted]" .
  qed
  ultimately show ?thesis unfolding levels_def by blast
qed


text \<open>The state of that run at time 0, when P0 has been taken from level 0.\<close>

definition mlfq_demo_state :: mlfq_state where
  "mlfq_demo_state =
     \<lparr>mq_data = map to_proc (prepareProcesses mlfq_demo),
      mq_pending = tl (map to_proc (prepareProcesses mlfq_demo)),
      mq_queues = [[], []], mq_time = 0\<rparr>"

theorem mlfq_has_one_more_level_witness:
  "parseMlfqLevels [2] \<noteq> []
   \<and> 0 < length (parseMlfqLevels [2])
   \<and> parseMlfqLevels [2] ! 0 < p_remaining (hd (mq_data mlfq_demo_state))
   \<and> length (mq_queues mlfq_demo_state) = length (parseMlfqLevels [2]) + 1
   \<and> (\<exists>schedule. runMlfq mlfq_demo [2] = Some (Inr schedule)
          \<and> list_all (\<lambda>e. \<exists>l. e_level e = Some l \<and> l \<le> length (parseMlfqLevels [2])) schedule)
   \<and> mq_time (mlfq_slice (mlfq_quantums (parseMlfqLevels [2])) mlfq_demo_state 0
                (hd (mq_data mlfq_demo_state)) [])
       = mq_time mlfq_demo_state + parseMlfqLevels [2] ! 0"
proof -
  let ?cur = "hd (mq_data mlfq_demo_state)"
  have h: "parseMlfqLevels [2] \<noteq> []" by code_simp
  have i: "0 < length (parseMlfqLevels [2])" by code_simp
  have r: "parseMlfqLevels [2] ! 0 < p_remaining ?cur" by code_simp
  have l: "length (mq_queues mlfq_demo_state) = length (parseMlfqLevels [2]) + 1" by code_simp
  from mlfq_has_one_more_level [OF h, of mlfq_demo mlfq_demo_state ?cur "[]"]
  have a: "\<exists>schedule. runMlfq mlfq_demo [2] = Some (Inr schedule)
          \<and> list_all (\<lambda>e. \<exists>l. e_level e = Some l \<and> l \<le> length (parseMlfqLevels [2])) schedule"
    and b: "\<forall>i < length (parseMlfqLevels [2]).
          parseMlfqLevels [2] ! i < p_remaining ?cur
          \<and> length (mq_queues mlfq_demo_state) = length (parseMlfqLevels [2]) + 1 \<longrightarrow>
          mq_time (mlfq_slice (mlfq_quantums (parseMlfqLevels [2])) mlfq_demo_state i ?cur [])
            = mq_time mlfq_demo_state + parseMlfqLevels [2] ! i"
    by (simp_all add: Let_def)
  from b i r l have
    "mq_time (mlfq_slice (mlfq_quantums (parseMlfqLevels [2])) mlfq_demo_state 0 ?cur [])
       = mq_time mlfq_demo_state + parseMlfqLevels [2] ! 0"
    by blast
  with h i r l a show ?thesis by blast
qed


end
